theory Spec2Isabelle
  imports Complex_Main "HOL-Library.Multiset"
begin

section \<open>The placement model of \<^verbatim>\<open>lib/rebalance.py\<close> and \<^verbatim>\<open>lib/connections.py\<close>\<close>

text \<open>
  Python objects have identity and are mutated in place, and the planner depends on both
  (\<^verbatim>\<open>node is self.initial_owner\<close>, \<^verbatim>\<open>planned_items.remove(item)\<close>). The model
  therefore keeps an explicit store: disks, partition replicas and brokers are referred to
  by references (natural numbers), and a \<open>heap\<close> maps each reference to the object's
  current fields. Every function that mutates takes the heap and returns the new one.

  Exceptions are values: a function that can raise returns \<open>error + 'a\<close>, with \<open>Inl\<close>
  the exception.

  Python's \<^verbatim>\<open>/\<close> on two integers yields a float. The model idealises these floats as exact
  rationals (\<open>rat\<close>): \<^verbatim>\<open>planned_used / capacity\<close> is the exact quotient and
  \<^verbatim>\<open>statistics.pvariance\<close> the exact population variance.
\<close>

datatype error =
  RuntimeError | TypeError | AttributeError | ZeroDivisionError
  | StatisticsError | ValueError | IndexError | KeyError

type_synonym node_ref = nat
type_synonym item_ref = nat
type_synonym broker_ref = nat

text \<open>\<^verbatim>\<open>class Broker\<close>: \<^verbatim>\<open>id\<close> and \<^verbatim>\<open>disks\<close> (host, port and ssh belong to the I/O adapter).\<close>

record broker =
  id_b :: int
  disks :: "node_ref list"

text \<open>\<^verbatim>\<open>class Disk(ReNode)\<close>: the fields of \<^verbatim>\<open>Node.__init__\<close> and \<^verbatim>\<open>Disk.__init__\<close>.
  \<^verbatim>\<open>planned_items\<close> and \<^verbatim>\<open>planned_used\<close> start as \<^verbatim>\<open>None\<close>.\<close>

record node =
  capacity :: int
  initial_items :: "item_ref list"
  planned_items :: "item_ref list option"
  planned_used :: "int option"
  broker :: broker_ref
  mount_point :: string

text \<open>\<^verbatim>\<open>class PartitionReplica(ReItem)\<close>: the fields of \<^verbatim>\<open>Item.__init__\<close> and
  \<^verbatim>\<open>PartitionReplica.__init__\<close>. \<^verbatim>\<open>replica_id\<close> is the result of \<^verbatim>\<open>list.index\<close>, hence a
  natural number.\<close>

record item =
  size_i :: int
  initial_owner :: "node_ref option"
  planned_owner :: "node_ref option"
  topic :: string
  id_p :: int
  replica_id :: nat
  is_leader :: bool

record heap =
  node_of :: "node_ref \<Rightarrow> node"
  item_of :: "item_ref \<Rightarrow> item"
  broker_of :: "broker_ref \<Rightarrow> broker"

text \<open>\<^verbatim>\<open>class PlanSettings\<close>, after \<^verbatim>\<open>__init__\<close> has converted the percentages.\<close>

record settings =
  max_iters :: int
  node_fraction_threshold :: rat
  item_fraction_threshold :: "rat option"
  swap :: bool

definition PlanSettings :: "int \<Rightarrow> rat \<Rightarrow> rat option \<Rightarrow> bool \<Rightarrow> settings" where
  "PlanSettings mi node_percentage_threshold item_percentage_threshold sw =
     \<lparr> max_iters = mi,
       node_fraction_threshold = node_percentage_threshold / 100,
       item_fraction_threshold =
         (case item_percentage_threshold of
            Some p \<Rightarrow> Some (1 - p / 100)
          | None \<Rightarrow> None),
       swap = sw \<rparr>"

subsection \<open>Attribute writes\<close>

definition set_planned_items :: "heap \<Rightarrow> node_ref \<Rightarrow> item_ref list \<Rightarrow> heap" where
  "set_planned_items h r its =
     h\<lparr>node_of := (node_of h)(r := (node_of h r)\<lparr>planned_items := Some its\<rparr>)\<rparr>"

definition set_planned_used :: "heap \<Rightarrow> node_ref \<Rightarrow> int \<Rightarrow> heap" where
  "set_planned_used h r u =
     h\<lparr>node_of := (node_of h)(r := (node_of h r)\<lparr>planned_used := Some u\<rparr>)\<rparr>"

definition set_initial_owner :: "heap \<Rightarrow> item_ref \<Rightarrow> node_ref \<Rightarrow> heap" where
  "set_initial_owner h i r =
     h\<lparr>item_of := (item_of h)(i := (item_of h i)\<lparr>initial_owner := Some r\<rparr>)\<rparr>"

definition set_planned_owner :: "heap \<Rightarrow> item_ref \<Rightarrow> node_ref option \<Rightarrow> heap" where
  "set_planned_owner h i r =
     h\<lparr>item_of := (item_of h)(i := (item_of h i)\<lparr>planned_owner := r\<rparr>)\<rparr>"

subsection \<open>\<^verbatim>\<open>Node\<close> and \<^verbatim>\<open>Item\<close> methods\<close>

text \<open>\<^verbatim>\<open>Node.planned_fraction_used\<close>: \<^verbatim>\<open>None / int\<close> is a TypeError, division by zero a
  ZeroDivisionError.\<close>

definition planned_fraction_used :: "node \<Rightarrow> error + rat" where
  "planned_fraction_used n =
     (case planned_used n of
        None \<Rightarrow> Inl TypeError
      | Some u \<Rightarrow>
          if capacity n = 0 then Inl ZeroDivisionError
          else Inr (of_int u / of_int (capacity n)))"

text \<open>\<^verbatim>\<open>Node.planned_sort\<close>: Python's sort is stable, also with \<^verbatim>\<open>reverse=True\<close>; a stable
  descending sort is the stable ascending sort on the negated key.\<close>

definition planned_sort :: "heap \<Rightarrow> node_ref \<Rightarrow> error + heap" where
  "planned_sort h r =
     (case planned_items (node_of h r) of
        None \<Rightarrow> Inl AttributeError
      | Some its \<Rightarrow>
          let sorted_items = sort_key (\<lambda>i. - size_i (item_of h i)) its;
              h1 = set_planned_items h r sorted_items
          in Inr (set_planned_used h1 r
                    (sum_list (map (\<lambda>v. size_i (item_of h1 v)) sorted_items))))"

definition has_moved :: "item \<Rightarrow> bool" where
  "has_moved it = (planned_owner it \<noteq> None)"

definition current_owner :: "item \<Rightarrow> node_ref option" where
  "current_owner it =
     (if planned_owner it \<noteq> None then planned_owner it else initial_owner it)"

text \<open>\<^verbatim>\<open>Item.can_move_to\<close>.\<close>

definition item_can_move_to :: "heap \<Rightarrow> item_ref \<Rightarrow> node_ref \<Rightarrow> error + bool" where
  "item_can_move_to h i r =
     (if initial_owner (item_of h i) = Some r then Inr False
      else
        case planned_used (node_of h r) of
          None \<Rightarrow> Inl TypeError
        | Some u \<Rightarrow>
            if u + size_i (item_of h i) > capacity (node_of h r) then Inr False
            else Inr True)"

text \<open>\<^verbatim>\<open>Broker.contains_partition\<close>: first every disk's \<^verbatim>\<open>initial_items\<close>, then every disk's
  \<^verbatim>\<open>planned_items\<close> in disk order; iterating \<^verbatim>\<open>None\<close> is a TypeError.\<close>

definition is_partition :: "heap \<Rightarrow> string \<Rightarrow> int \<Rightarrow> item_ref \<Rightarrow> bool" where
  "is_partition h t p i = (topic (item_of h i) = t \<and> id_p (item_of h i) = p)"

fun planned_contains :: "heap \<Rightarrow> string \<Rightarrow> int \<Rightarrow> node_ref list \<Rightarrow> error + bool" where
  "planned_contains h t p [] = Inr False"
| "planned_contains h t p (d # ds) =
     (case planned_items (node_of h d) of
        None \<Rightarrow> Inl TypeError
      | Some its \<Rightarrow>
          if list_ex (is_partition h t p) its then Inr True
          else planned_contains h t p ds)"

definition contains_partition :: "heap \<Rightarrow> broker_ref \<Rightarrow> string \<Rightarrow> int \<Rightarrow> error + bool" where
  "contains_partition h b t p =
     (let ds = disks (broker_of h b) in
      if list_ex (\<lambda>d. list_ex (is_partition h t p) (initial_items (node_of h d))) ds
      then Inr True
      else planned_contains h t p ds)"

text \<open>\<^verbatim>\<open>PartitionReplica.can_move_to\<close>.\<close>

definition can_move_to :: "heap \<Rightarrow> item_ref \<Rightarrow> node_ref \<Rightarrow> error + bool" where
  "can_move_to h i disk =
     (if is_leader (item_of h i) then Inr False
      else
        case item_can_move_to h i disk of
          Inl e \<Rightarrow> Inl e
        | Inr False \<Rightarrow> Inr False
        | Inr True \<Rightarrow>
            (case initial_owner (item_of h i) of
               None \<Rightarrow> Inl AttributeError
             | Some io \<Rightarrow>
                 if broker (node_of h disk) \<noteq> broker (node_of h io) then
                   (case contains_partition h (broker (node_of h disk))
                           (topic (item_of h i)) (id_p (item_of h i)) of
                      Inl e \<Rightarrow> Inl e
                    | Inr True \<Rightarrow> Inr False
                    | Inr False \<Rightarrow> Inr True)
                 else Inr True))"

subsection \<open>\<^verbatim>\<open>move\<close>, \<^verbatim>\<open>resort\<close>, \<^verbatim>\<open>percent_used_variance\<close>\<close>

text \<open>\<^verbatim>\<open>move\<close>: \<^verbatim>\<open>list.remove\<close> deletes the first occurrence and raises ValueError when there
  is none; an attribute of \<^verbatim>\<open>None\<close> is an AttributeError.\<close>

definition move :: "heap \<Rightarrow> item_ref \<Rightarrow> node_ref \<Rightarrow> error + heap" where
  "move h i dest_node =
     (case current_owner (item_of h i) of
        None \<Rightarrow> Inl AttributeError
      | Some src_node \<Rightarrow>
          (case planned_items (node_of h src_node) of
             None \<Rightarrow> Inl AttributeError
           | Some its \<Rightarrow>
               if i \<notin> set its then Inl ValueError
               else
                 let h1 = set_planned_items h src_node (remove1 i its);
                     h2 = set_planned_owner h1 i (Some dest_node)
                 in (case planned_items (node_of h2 dest_node) of
                       None \<Rightarrow> Inl AttributeError
                     | Some ds \<Rightarrow> Inr (set_planned_items h2 dest_node (ds @ [i])))))"

fun map_e :: "('a \<Rightarrow> error + 'b) \<Rightarrow> 'a list \<Rightarrow> error + 'b list" where
  "map_e f [] = Inr []"
| "map_e f (x # xs) =
     (case f x of
        Inl e \<Rightarrow> Inl e
      | Inr y \<Rightarrow> (case map_e f xs of Inl e \<Rightarrow> Inl e | Inr ys \<Rightarrow> Inr (y # ys)))"

fun planned_sort_all :: "heap \<Rightarrow> node_ref list \<Rightarrow> error + heap" where
  "planned_sort_all h [] = Inr h"
| "planned_sort_all h (r # rs) =
     (case planned_sort h r of Inl e \<Rightarrow> Inl e | Inr h' \<Rightarrow> planned_sort_all h' rs)"

text \<open>The sort key of \<^verbatim>\<open>resort\<close>, once \<^verbatim>\<open>planned_fraction_used\<close> is known not to raise.\<close>

definition fraction_key :: "heap \<Rightarrow> node_ref \<Rightarrow> rat" where
  "fraction_key h r =
     (case planned_fraction_used (node_of h r) of Inl e \<Rightarrow> 0 | Inr q \<Rightarrow> q)"

text \<open>\<^verbatim>\<open>resort\<close>: \<^verbatim>\<open>list.sort\<close> computes the key of every element first, so an exception of
  \<^verbatim>\<open>planned_fraction_used\<close> leaves the function before anything is reordered.\<close>

definition resort :: "heap \<Rightarrow> node_ref list \<Rightarrow> error + (heap \<times> node_ref list)" where
  "resort h nodes =
     (case planned_sort_all h nodes of
        Inl e \<Rightarrow> Inl e
      | Inr h' \<Rightarrow>
          (case map_e (\<lambda>n. planned_fraction_used (node_of h' n)) nodes of
             Inl e \<Rightarrow> Inl e
           | Inr keys \<Rightarrow> Inr (h', sort_key (\<lambda>n. - fraction_key h' n) nodes)))"

text \<open>\<^verbatim>\<open>statistics.pvariance\<close>: StatisticsError on no data, else the mean of the squared
  deviations from the mean.\<close>

definition pvariance :: "rat list \<Rightarrow> error + rat" where
  "pvariance xs =
     (if xs = [] then Inl StatisticsError
      else
        let n = of_nat (length xs); mu = sum_list xs / n
        in Inr (sum_list (map (\<lambda>x. (x - mu)\<^sup>2) xs) / n))"

text \<open>The inner function \<^verbatim>\<open>percentage\<close> of \<^verbatim>\<open>percent_used_variance\<close>. The anchoring node of
  a pair may be \<^verbatim>\<open>None\<close> (an unset \<^verbatim>\<open>initial_owner\<close>), which \<^verbatim>\<open>is\<close> no node.\<close>

definition anchored :: "heap \<Rightarrow> node_ref \<Rightarrow> (node_ref option \<times> item_ref) list \<Rightarrow> int" where
  "anchored h r pairs =
     sum_list (map (\<lambda>(n, i). size_i (item_of h i)) (filter (\<lambda>(n, i). n = Some r) pairs))"

definition percentage ::
  "heap \<Rightarrow> (node_ref option \<times> item_ref) list \<Rightarrow> (node_ref option \<times> item_ref) list
     \<Rightarrow> node_ref \<Rightarrow> error + rat" where
  "percentage h include_items exclude_items r =
     (case planned_used (node_of h r) of
        None \<Rightarrow> Inl TypeError
      | Some u \<Rightarrow>
          let the_sum = u - anchored h r exclude_items + anchored h r include_items
          in if capacity (node_of h r) = 0 then Inl ZeroDivisionError
             else Inr (of_int the_sum / of_int (capacity (node_of h r))))"

definition percent_used_variance ::
  "heap \<Rightarrow> node_ref list \<Rightarrow> (node_ref option \<times> item_ref) list
     \<Rightarrow> (node_ref option \<times> item_ref) list \<Rightarrow> error + rat" where
  "percent_used_variance h nodes include_items exclude_items =
     (case map_e (percentage h include_items exclude_items) nodes of
        Inl e \<Rightarrow> Inl e
      | Inr ps \<Rightarrow> pvariance ps)"

subsection \<open>Candidate iterators\<close>

text \<open>
  A generator is lazy: an exception inside it surfaces only when the consumer asks for
  the element after the last one yielded. A generator is therefore modelled by the list of
  items it yields together with the exception, if any, that ends the iteration.
\<close>

type_synonym item_stream = "item_ref list \<times> error option"

text \<open>\<^verbatim>\<open>iter_large_items\<close>: \<open>lst\<close> is \<^verbatim>\<open>nodes_by_size[-1]\<close>.\<close>

fun iter_large_from :: "settings \<Rightarrow> heap \<Rightarrow> node_ref \<Rightarrow> node_ref list \<Rightarrow> item_stream" where
  "iter_large_from s h lst [] = ([], None)"
| "iter_large_from s h lst (r # rs) =
     (case planned_fraction_used (node_of h lst) of
        Inl e \<Rightarrow> ([], Some e)
      | Inr fl \<Rightarrow>
          (case planned_fraction_used (node_of h r) of
             Inl e \<Rightarrow> ([], Some e)
           | Inr fr \<Rightarrow>
               if \<bar>fl - fr\<bar> < node_fraction_threshold s then ([], None)
               else
                 (case planned_items (node_of h r) of
                    None \<Rightarrow> ([], Some TypeError)
                  | Some its \<Rightarrow>
                      (case iter_large_from s h lst rs of
                         (zs, e) \<Rightarrow>
                           (filter (\<lambda>i. \<not> has_moved (item_of h i)) its @ zs, e)))))"

definition iter_large_items :: "settings \<Rightarrow> heap \<Rightarrow> node_ref list \<Rightarrow> item_stream" where
  "iter_large_items s h nodes_by_size =
     iter_large_from s h (last nodes_by_size) nodes_by_size"

text \<open>
  \<^verbatim>\<open>iter_small_items(settings, nodes_by_size, large_node)\<close> is called by
  \<^verbatim>\<open>plan_step_swap\<close> as \<^verbatim>\<open>iter_small_items(nodes, settings, large_item)\<close>. Python binds by
  position, so the parameters receive objects of other classes than their names say. The
  model keeps this visible: the arguments are dynamically typed values.
\<close>

datatype pyobj =
  PyNodes "node_ref list" | PySettings settings | PyItem item_ref | PyNode node_ref

fun iter_small_from :: "heap \<Rightarrow> pyobj \<Rightarrow> node_ref list \<Rightarrow> item_stream" where
  "iter_small_from h large_node [] = ([], None)"
| "iter_small_from h large_node (r # rs) =
     (if PyNode r = large_node then ([], None)
      else
        (case planned_items (node_of h r) of
           None \<Rightarrow> ([], Some TypeError)
         | Some its \<Rightarrow>
             (case iter_small_from h large_node rs of
                (zs, e) \<Rightarrow>
                  (filter (\<lambda>i. \<not> has_moved (item_of h i)) (rev its) @ zs, e))))"

text \<open>\<^verbatim>\<open>reversed\<close> accepts a list; a \<^verbatim>\<open>PlanSettings\<close>, an item or a node has neither
  \<^verbatim>\<open>__reversed__\<close> nor the sequence protocol, and \<^verbatim>\<open>reversed\<close> raises TypeError.\<close>

definition iter_small_items :: "heap \<Rightarrow> pyobj \<Rightarrow> pyobj \<Rightarrow> pyobj \<Rightarrow> item_stream" where
  "iter_small_items h settings_arg nodes_by_size large_node =
     (case nodes_by_size of
        PyNodes ns \<Rightarrow> iter_small_from h large_node (rev ns)
      | _ \<Rightarrow> ([], Some TypeError))"

subsection \<open>The move step\<close>

type_synonym step_result = "error + (heap \<times> item_ref list) option"

text \<open>The body of the loop of \<^verbatim>\<open>plan_step_move\<close> over \<^verbatim>\<open>reversed(nodes)\<close>; \<open>rs\<close> are the
  destinations still to try.\<close>

fun plan_step_move_loop ::
  "heap \<Rightarrow> node_ref list \<Rightarrow> settings \<Rightarrow> rat \<Rightarrow> item_ref \<Rightarrow> node_ref list \<Rightarrow> step_result" where
  "plan_step_move_loop h nodes s current_pvariance i [] = Inr None"
| "plan_step_move_loop h nodes s current_pvariance i (r # rs) =
     (case planned_fraction_used (node_of h r) of
        Inl e \<Rightarrow> Inl e
      | Inr fn \<Rightarrow>
          (case current_owner (item_of h i) of
             None \<Rightarrow> Inl AttributeError
           | Some own \<Rightarrow>
               (case planned_fraction_used (node_of h own) of
                  Inl e \<Rightarrow> Inl e
                | Inr fo \<Rightarrow>
                    if \<bar>fn - fo\<bar> < node_fraction_threshold s
                    then plan_step_move_loop h nodes s current_pvariance i rs
                    else
                      (case can_move_to h i r of
                         Inl e \<Rightarrow> Inl e
                       | Inr False \<Rightarrow> plan_step_move_loop h nodes s current_pvariance i rs
                       | Inr True \<Rightarrow>
                           (case percent_used_variance h nodes [(Some r, i)]
                                   [(initial_owner (item_of h i), i)] of
                              Inl e \<Rightarrow> Inl e
                            | Inr moved_pvariance \<Rightarrow>
                                if moved_pvariance \<ge> current_pvariance
                                then plan_step_move_loop h nodes s current_pvariance i rs
                                else
                                  (case move h i r of
                                     Inl e \<Rightarrow> Inl e
                                   | Inr h' \<Rightarrow> Inr (Some (h', [i]))))))))"

definition plan_step_move ::
  "heap \<Rightarrow> node_ref list \<Rightarrow> settings \<Rightarrow> rat \<Rightarrow> item_ref \<Rightarrow> step_result" where
  "plan_step_move h nodes s current_pvariance i =
     plan_step_move_loop h nodes s current_pvariance i (rev nodes)"

subsection \<open>The swap step\<close>

text \<open>\<^verbatim>\<open>small_item.store\<close>: neither \<^verbatim>\<open>Item\<close> nor \<^verbatim>\<open>PartitionReplica\<close> defines an attribute
  \<^verbatim>\<open>store\<close> (an item has \<^verbatim>\<open>size\<close>, the owners, \<^verbatim>\<open>topic\<close>, \<^verbatim>\<open>id\<close>, \<^verbatim>\<open>replica_id\<close> and
  \<^verbatim>\<open>is_leader\<close>), so reading it raises AttributeError.\<close>

definition store :: "item \<Rightarrow> error + int" where
  "store it = Inl AttributeError"

text \<open>\<^verbatim>\<open>can_move_to\<close> on an argument that may be \<^verbatim>\<open>None\<close> (another item's unset
  \<^verbatim>\<open>initial_owner\<close>): \<^verbatim>\<open>None is self.initial_owner\<close> holds for an unset owner, and
  \<^verbatim>\<open>None.planned_used\<close> is an AttributeError.\<close>

definition can_move_to_opt :: "heap \<Rightarrow> item_ref \<Rightarrow> node_ref option \<Rightarrow> error + bool" where
  "can_move_to_opt h i disk =
     (case disk of
        Some d \<Rightarrow> can_move_to h i d
      | None \<Rightarrow>
          if is_leader (item_of h i) then Inr False
          else if initial_owner (item_of h i) = None then Inr False
          else Inl AttributeError)"

definition owner_fraction :: "heap \<Rightarrow> item_ref \<Rightarrow> error + rat" where
  "owner_fraction h i =
     (case current_owner (item_of h i) of
        None \<Rightarrow> Inl AttributeError
      | Some own \<Rightarrow> planned_fraction_used (node_of h own))"

text \<open>The tests of the loop body of \<^verbatim>\<open>plan_step_swap\<close> after the first one: \<open>Inr False\<close> is
  \<^verbatim>\<open>continue\<close>, \<open>Inr True\<close> reaches the two calls of \<^verbatim>\<open>move\<close>.\<close>

definition swap_tests ::
  "heap \<Rightarrow> node_ref list \<Rightarrow> settings \<Rightarrow> rat \<Rightarrow> item_ref \<Rightarrow> item_ref \<Rightarrow> error + bool" where
  "swap_tests h nodes s current_pvariance large_item small_item =
     (let ls = size_i (item_of h large_item); ss = size_i (item_of h small_item) in
      if max ls ss = 0 then Inl ZeroDivisionError
      else
        (case item_fraction_threshold s of
           None \<Rightarrow> Inl TypeError
         | Some ithr \<Rightarrow>
             if of_int (min ls ss) / of_int (max ls ss) > ithr then Inr False
             else
               (case owner_fraction h large_item of
                  Inl e \<Rightarrow> Inl e
                | Inr fl \<Rightarrow>
                    (case owner_fraction h small_item of
                       Inl e \<Rightarrow> Inl e
                     | Inr fs \<Rightarrow>
                         if \<bar>fl - fs\<bar> < node_fraction_threshold s then Inr False
                         else
                           (case can_move_to_opt h small_item
                                   (initial_owner (item_of h large_item)) of
                              Inl e \<Rightarrow> Inl e
                            | Inr False \<Rightarrow> Inr False
                            | Inr True \<Rightarrow>
                                (case can_move_to_opt h large_item
                                        (initial_owner (item_of h small_item)) of
                                   Inl e \<Rightarrow> Inl e
                                 | Inr False \<Rightarrow> Inr False
                                 | Inr True \<Rightarrow>
                                     (case percent_used_variance h nodes
                                             [(initial_owner (item_of h large_item), small_item),
                                              (initial_owner (item_of h small_item), large_item)]
                                             [(initial_owner (item_of h large_item), large_item),
                                              (initial_owner (item_of h small_item), small_item)] of
                                        Inl e \<Rightarrow> Inl e
                                      | Inr swapped_pvariance \<Rightarrow>
                                          Inr (\<not> swapped_pvariance \<ge> current_pvariance))))))))"

text \<open>The two calls of \<^verbatim>\<open>move\<close> that end an accepted swap; the second reads
  \<^verbatim>\<open>large_item.current_owner\<close> after the first has changed it.\<close>

definition swap_moves :: "heap \<Rightarrow> item_ref \<Rightarrow> item_ref \<Rightarrow> step_result" where
  "swap_moves h large_item small_item =
     (case current_owner (item_of h small_item) of
        None \<Rightarrow> Inl AttributeError
      | Some d1 \<Rightarrow>
          (case move h large_item d1 of
             Inl e \<Rightarrow> Inl e
           | Inr h1 \<Rightarrow>
               (case current_owner (item_of h1 large_item) of
                  None \<Rightarrow> Inl AttributeError
                | Some d2 \<Rightarrow>
                    (case move h1 small_item d2 of
                       Inl e \<Rightarrow> Inl e
                     | Inr h2 \<Rightarrow> Inr (Some (h2, [large_item, small_item]))))))"

text \<open>The first test of the loop body: \<^verbatim>\<open>if small_item.store >= large_item.store: continue\<close>.
  \<open>Inr True\<close> is \<^verbatim>\<open>continue\<close>.\<close>

definition swap_first_test :: "heap \<Rightarrow> item_ref \<Rightarrow> item_ref \<Rightarrow> error + bool" where
  "swap_first_test h large_item small_item =
     (case store (item_of h small_item) of
        Inl e \<Rightarrow> Inl e
      | Inr ss \<Rightarrow>
          (case store (item_of h large_item) of
             Inl e \<Rightarrow> Inl e
           | Inr ls \<Rightarrow> Inr (ss \<ge> ls)))"

fun plan_step_swap_loop ::
  "heap \<Rightarrow> node_ref list \<Rightarrow> settings \<Rightarrow> rat \<Rightarrow> item_ref \<Rightarrow> item_ref list \<Rightarrow> error option
     \<Rightarrow> step_result" where
  "plan_step_swap_loop h nodes s current_pvariance large_item [] err =
     (case err of Some e \<Rightarrow> Inl e | None \<Rightarrow> Inr None)"
| "plan_step_swap_loop h nodes s current_pvariance large_item (small_item # rest) err =
     (case swap_first_test h large_item small_item of
        Inl e \<Rightarrow> Inl e
      | Inr True \<Rightarrow> plan_step_swap_loop h nodes s current_pvariance large_item rest err
      | Inr False \<Rightarrow>
          (case swap_tests h nodes s current_pvariance large_item small_item of
             Inl e \<Rightarrow> Inl e
           | Inr False \<Rightarrow> plan_step_swap_loop h nodes s current_pvariance large_item rest err
           | Inr True \<Rightarrow> swap_moves h large_item small_item))"

text \<open>\<^verbatim>\<open>plan_step_swap\<close>: the call \<^verbatim>\<open>iter_small_items(nodes, settings, large_item)\<close> with the
  arguments in the order the source passes them.\<close>

definition plan_step_swap ::
  "heap \<Rightarrow> node_ref list \<Rightarrow> settings \<Rightarrow> rat \<Rightarrow> item_ref \<Rightarrow> step_result" where
  "plan_step_swap h nodes s current_pvariance large_item =
     (case iter_small_items h (PyNodes nodes) (PySettings s) (PyItem large_item) of
        (smalls, err) \<Rightarrow>
          plan_step_swap_loop h nodes s current_pvariance large_item smalls err)"

subsection \<open>\<^verbatim>\<open>plan_one\<close> and \<^verbatim>\<open>plan\<close>\<close>

type_synonym plan_step =
  "heap \<Rightarrow> node_ref list \<Rightarrow> settings \<Rightarrow> rat \<Rightarrow> item_ref \<Rightarrow> step_result"

text \<open>The loop of \<^verbatim>\<open>plan_one\<close> over the large items; \<open>err\<close> is the exception that ends the
  generator, raised once the yielded items are used up.\<close>

fun plan_one_loop ::
  "plan_step \<Rightarrow> heap \<Rightarrow> node_ref list \<Rightarrow> settings \<Rightarrow> rat \<Rightarrow> item_ref list \<Rightarrow> error option
     \<Rightarrow> step_result" where
  "plan_one_loop step h nodes s current_pvariance [] err =
     (case err of Some e \<Rightarrow> Inl e | None \<Rightarrow> Inr None)"
| "plan_one_loop step h nodes s current_pvariance (large_item # rest) err =
     (case step h nodes s current_pvariance large_item of
        Inl e \<Rightarrow> Inl e
      | Inr (Some moved) \<Rightarrow> Inr (Some moved)
      | Inr None \<Rightarrow> plan_one_loop step h nodes s current_pvariance rest err)"

text \<open>\<^verbatim>\<open>plan_one\<close> returns the moved items or \<^verbatim>\<open>None\<close>; the model also returns the heap and
  the node list, which \<^verbatim>\<open>resort\<close> has reordered in place, as they are when it returns.\<close>

definition plan_one ::
  "heap \<Rightarrow> node_ref list \<Rightarrow> settings \<Rightarrow> plan_step
     \<Rightarrow> error + (heap \<times> node_ref list \<times> item_ref list option)" where
  "plan_one h nodes s step =
     (case resort h nodes of
        Inl e \<Rightarrow> Inl e
      | Inr (h1, nodes1) \<Rightarrow>
          (case percent_used_variance h1 nodes1 [] [] of
             Inl e \<Rightarrow> Inl e
           | Inr current_pvariance \<Rightarrow>
               (case iter_large_items s h1 nodes1 of
                  (larges, err) \<Rightarrow>
                    (case plan_one_loop step h1 nodes1 s current_pvariance larges err of
                       Inl e \<Rightarrow> Inl e
                     | Inr None \<Rightarrow> Inr (h1, nodes1, None)
                     | Inr (Some (h2, moved)) \<Rightarrow> Inr (h2, nodes1, Some moved)))))"

text \<open>The initialisation loops of \<^verbatim>\<open>plan\<close>.\<close>

fun plan_init_items :: "heap \<Rightarrow> node_ref \<Rightarrow> item_ref list \<Rightarrow> error + heap" where
  "plan_init_items h r [] = Inr h"
| "plan_init_items h r (i # is) =
     (case initial_owner (item_of h i) of
        None \<Rightarrow> plan_init_items (set_planned_owner (set_initial_owner h i r) i None) r is
      | Some own \<Rightarrow>
          if own \<noteq> r then Inl RuntimeError
          else plan_init_items (set_planned_owner h i None) r is)"

fun plan_init :: "heap \<Rightarrow> node_ref list \<Rightarrow> error + heap" where
  "plan_init h [] = Inr h"
| "plan_init h (r # rs) =
     (let h1 = set_planned_items h r (initial_items (node_of h r)) in
      case plan_init_items h1 r (initial_items (node_of h1 r)) of
        Inl e \<Rightarrow> Inl e
      | Inr h2 \<Rightarrow> plan_init h2 rs)"

text \<open>The loop \<^verbatim>\<open>for _ in range(settings.max_iters)\<close>, by the number of iterations left;
  \<^verbatim>\<open>if moved_items\<close> is false for \<^verbatim>\<open>None\<close> and for an empty tuple.\<close>

fun plan_loop ::
  "nat \<Rightarrow> heap \<Rightarrow> node_ref list \<Rightarrow> settings \<Rightarrow> plan_step \<Rightarrow> item_ref list
     \<Rightarrow> error + (heap \<times> node_ref list \<times> item_ref list)" where
  "plan_loop 0 h nodes s step all_moves = Inr (h, nodes, all_moves)"
| "plan_loop (Suc k) h nodes s step all_moves =
     (case plan_one h nodes s step of
        Inl e \<Rightarrow> Inl e
      | Inr (h', nodes', None) \<Rightarrow> Inr (h', nodes', all_moves)
      | Inr (h', nodes', Some moved_items) \<Rightarrow>
          if moved_items = [] then Inr (h', nodes', all_moves)
          else plan_loop k h' nodes' s step (all_moves @ moved_items))"

text \<open>\<^verbatim>\<open>plan\<close>: \<^verbatim>\<open>range(n)\<close> is empty for \<^verbatim>\<open>n \<le> 0\<close>. The result is the returned list of
  moves, with the heap and the node list as \<^verbatim>\<open>plan\<close> leaves them.\<close>

definition plan ::
  "heap \<Rightarrow> node_ref list \<Rightarrow> settings \<Rightarrow> error + (heap \<times> node_ref list \<times> item_ref list)" where
  "plan h nodes s =
     (case plan_init h nodes of
        Inl e \<Rightarrow> Inl e
      | Inr h0 \<Rightarrow>
          plan_loop (nat (max_iters s)) h0 nodes s
            (if swap s then plan_step_swap else plan_step_move) [])"

section \<open>The reassignment document of \<^verbatim>\<open>lib/connections.py\<close>\<close>

text \<open>A record of the dict \<^verbatim>\<open>new_assignments\<close>, and a record of the emitted document.\<close>

record assignment =
  topic_a :: string
  partition_a :: int
  replicas_a :: "int list"
  original_replicas :: "int list"
  log_dirs_a :: "string list"

record json_item =
  topic_j :: string
  partition_j :: int
  replicas_j :: "int list"
  log_dirs_j :: "string list"

record reassignment =
  version :: int
  partitions :: "json_item list"

text \<open>\<^verbatim>\<open>random.choice\<close>: the source of randomness is a parameter, a sequence \<open>rng\<close> of
  draws of which \<open>k\<close> have been used; every element of a non-empty list is the choice for
  some draw. \<^verbatim>\<open>random.choice([])\<close> raises IndexError.\<close>

definition random_choice :: "(nat \<Rightarrow> nat) \<Rightarrow> nat \<Rightarrow> 'a list \<Rightarrow> error + ('a \<times> nat)" where
  "random_choice rng k xs =
     (if xs = [] then Inl IndexError
      else Inr (xs ! (rng k mod length xs), Suc k))"

text \<open>\<^verbatim>\<open>list.index\<close> on an element known to be in the list.\<close>

fun index :: "'a list \<Rightarrow> 'a \<Rightarrow> nat" where
  "index [] y = 0"
| "index (x # xs) y = (if x = y then 0 else Suc (index xs y))"

text \<open>\<^verbatim>\<open>_find_new_position\<close>; the result carries the number of draws used so far.\<close>

definition find_new_position ::
  "(nat \<Rightarrow> nat) \<Rightarrow> nat \<Rightarrow> int list \<Rightarrow> int \<Rightarrow> nat \<Rightarrow> int \<Rightarrow> error + (nat \<times> nat)" where
  "find_new_position rng k replicas new_id new_position old_id =
     (if old_id \<in> set replicas then Inr (index replicas old_id, k)
      else if count_list replicas new_id < 2 then
        random_choice rng k (filter (\<lambda>x. x \<noteq> new_position) [0..<length replicas])
      else if new_id \<notin> set replicas \<and> old_id \<notin> set replicas then Inr (0, k)
      else
        random_choice rng k
          (filter (\<lambda>x. replicas ! x = new_id \<and> x \<noteq> new_position) [0..<length replicas]))"

text \<open>\<^verbatim>\<open>"{}-{}".format(item.topic, item.id)\<close>: an integer in decimal.\<close>

fun str_nat :: "nat \<Rightarrow> string" where
  "str_nat n =
     (if n < 10 then [char_of (48 + n)]
      else str_nat (n div 10) @ [char_of (48 + n mod 10)])"

definition str_int :: "int \<Rightarrow> string" where
  "str_int i = (if i < 0 then CHR ''-'' # str_nat (nat (- i)) else str_nat (nat i))"

definition id_name_of :: "item \<Rightarrow> string" where
  "id_name_of it = topic it @ ''-'' @ str_int (id_p it)"

text \<open>\<^verbatim>\<open>str.rstrip("/")\<close>.\<close>

definition rstrip_slash :: "string \<Rightarrow> string" where
  "rstrip_slash s = rev (dropWhile (\<lambda>c. c = CHR ''/'') (rev s))"

text \<open>The dict \<^verbatim>\<open>new_assignments\<close> keeps insertion order; it is an association list with
  one entry per key, a new key appended at the end.\<close>

type_synonym assignments = "(string \<times> assignment) list"

definition update_record ::
  "assignments \<Rightarrow> string \<Rightarrow> (assignment \<Rightarrow> assignment) \<Rightarrow> assignments" where
  "update_record na key f = map (\<lambda>(k, r). if k = key then (k, f r) else (k, r)) na"

text \<open>
  The local variable \<^verbatim>\<open>replicas\<close> is assigned only where a record is created, and the
  list it names is the very list stored in that record's \<^verbatim>\<open>"replicas"\<close> field. Records are
  appended to the dict where they are created and never removed, and no record's
  \<^verbatim>\<open>"replicas"\<close> field is ever rebound. So whenever the other branch runs, \<^verbatim>\<open>replicas\<close> is
  the list of the last record of \<^verbatim>\<open>new_assignments\<close>: a write \<^verbatim>\<open>replicas[p] = v\<close> there
  is a write to that record.
\<close>

definition write_replicas_var :: "assignments \<Rightarrow> nat \<Rightarrow> int \<Rightarrow> error + assignments" where
  "write_replicas_var na pos v =
     (case last na of
        (k, r) \<Rightarrow>
          if pos < length (replicas_a r)
          then Inr (butlast na @ [(k, r\<lparr>replicas_a := (replicas_a r)[pos := v]\<rparr>)])
          else Inl IndexError)"

text \<open>The body of the loop of \<^verbatim>\<open>gen_reassignment_file\<close> over \<^verbatim>\<open>moved_replicas\<close>. The state
  is the dict and the number of random draws used.\<close>

definition gen_step ::
  "(nat \<Rightarrow> nat) \<Rightarrow> (string \<times> int \<rightharpoonup> int \<times> int list) \<Rightarrow> heap
     \<Rightarrow> assignments \<times> nat \<Rightarrow> item_ref \<Rightarrow> error + (assignments \<times> nat)" where
  "gen_step rng parts h st i =
     (case st of (new_assignments, k) \<Rightarrow>
      let it = item_of h i; id_name = id_name_of it in
      case parts (topic it, id_p it) of
        None \<Rightarrow> Inl KeyError
      | Some (leader, initial_replica_nodes) \<Rightarrow>
          (case map_of new_assignments id_name of
             None \<Rightarrow>
               if replica_id it \<ge> length initial_replica_nodes then Inl IndexError
               else
                 let old_replica = initial_replica_nodes ! replica_id it in
                 (case planned_owner it of
                    None \<Rightarrow> Inl AttributeError
                  | Some po \<Rightarrow>
                      let new_id = id_b (broker_of h (broker (node_of h po)));
                          replicas = initial_replica_nodes[replica_id it := new_id]
                      in (case find_new_position rng k replicas new_id (replica_id it)
                                  old_replica of
                            Inl e \<Rightarrow> Inl e
                          | Inr (old_replica_pos, k') \<Rightarrow>
                              if old_replica_pos \<ge> length replicas then Inl IndexError
                              else
                                Inr (new_assignments @
                                     [(id_name,
                                       \<lparr> topic_a = topic it,
                                         partition_a = id_p it,
                                         replicas_a = replicas[old_replica_pos := old_replica],
                                         original_replicas = initial_replica_nodes,
                                         log_dirs_a =
                                           (replicate (length initial_replica_nodes) ''any'')
                                             [replica_id it :=
                                                rstrip_slash (mount_point (node_of h po))] \<rparr>)],
                                     k')))
           | Some r \<Rightarrow>
               if replica_id it \<ge> length (replicas_a r) then Inl IndexError
               else
                 let old_replica = replicas_a r ! replica_id it in
                 (case planned_owner it of
                    None \<Rightarrow> Inl AttributeError
                  | Some po \<Rightarrow>
                      let new_id = id_b (broker_of h (broker (node_of h po)));
                          na1 = update_record new_assignments id_name
                                  (\<lambda>r. r\<lparr>replicas_a := (replicas_a r)[replica_id it := new_id]\<rparr>)
                      in (case find_new_position rng k
                                  ((replicas_a r)[replica_id it := new_id])
                                  new_id (replica_id it) old_replica of
                            Inl e \<Rightarrow> Inl e
                          | Inr (old_replica_pos, k') \<Rightarrow>
                              (case write_replicas_var na1 old_replica_pos old_replica of
                                 Inl e \<Rightarrow> Inl e
                               | Inr na2 \<Rightarrow>
                                   if replica_id it \<ge> length (log_dirs_a r) then Inl IndexError
                                   else
                                     Inr (update_record na2 id_name
                                            (\<lambda>r. r\<lparr>log_dirs_a :=
                                                     (log_dirs_a r)
                                                       [replica_id it :=
                                                          rstrip_slash
                                                            (mount_point (node_of h po))]\<rparr>),
                                          k'))))))"

fun gen_loop ::
  "(nat \<Rightarrow> nat) \<Rightarrow> (string \<times> int \<rightharpoonup> int \<times> int list) \<Rightarrow> heap
     \<Rightarrow> assignments \<times> nat \<Rightarrow> item_ref list \<Rightarrow> error + (assignments \<times> nat)" where
  "gen_loop rng parts h st [] = Inr st"
| "gen_loop rng parts h st (i # is) =
     (case gen_step rng parts h st i of
        Inl e \<Rightarrow> Inl e
      | Inr st' \<Rightarrow> gen_loop rng parts h st' is)"

text \<open>The final loop over \<^verbatim>\<open>new_assignments.values()\<close>.\<close>

definition json_items :: "assignments \<Rightarrow> json_item list" where
  "json_items na =
     map (\<lambda>(k, partition_data).
            \<lparr> topic_j = topic_a partition_data,
              partition_j = partition_a partition_data,
              replicas_j = replicas_a partition_data,
              log_dirs_j = log_dirs_a partition_data \<rparr>)
       (filter (\<lambda>(k, partition_data).
                  length (replicas_a partition_data) = card (set (replicas_a partition_data)))
          na)"

definition gen_reassignment_file ::
  "(nat \<Rightarrow> nat) \<Rightarrow> (string \<times> int \<rightharpoonup> int \<times> int list) \<Rightarrow> heap \<Rightarrow> item_ref list
     \<Rightarrow> error + reassignment" where
  "gen_reassignment_file rng parts h moved_replicas =
     (case gen_loop rng parts h ([], 0) moved_replicas of
        Inl e \<Rightarrow> Inl e
      | Inr (new_assignments, k) \<Rightarrow>
          Inr \<lparr> version = 1, partitions = json_items new_assignments \<rparr>)"

section \<open>Observations on the heap\<close>

text \<open>The items a node holds under the plan, and the total size of a list of items.\<close>

definition planned :: "heap \<Rightarrow> node_ref \<Rightarrow> item_ref list" where
  "planned h n = (case planned_items (node_of h n) of None \<Rightarrow> [] | Some its \<Rightarrow> its)"

definition sizes :: "heap \<Rightarrow> item_ref list \<Rightarrow> int" where
  "sizes h its = sum_list (map (\<lambda>i. size_i (item_of h i)) its)"

text \<open>The fields that no function of the planner assigns.\<close>

definition static :: "heap \<Rightarrow> heap \<Rightarrow> bool" where
  "static h h' =
     (broker_of h' = broker_of h
      \<and> (\<forall>n. capacity (node_of h' n) = capacity (node_of h n)
             \<and> initial_items (node_of h' n) = initial_items (node_of h n)
             \<and> broker (node_of h' n) = broker (node_of h n)
             \<and> mount_point (node_of h' n) = mount_point (node_of h n))
      \<and> (\<forall>i. size_i (item_of h' i) = size_i (item_of h i)
             \<and> topic (item_of h' i) = topic (item_of h i)
             \<and> id_p (item_of h' i) = id_p (item_of h i)
             \<and> replica_id (item_of h' i) = replica_id (item_of h i)
             \<and> is_leader (item_of h' i) = is_leader (item_of h i)))"

text \<open>A node as \<^verbatim>\<open>planned_sort\<close> leaves it: \<^verbatim>\<open>planned_used\<close> is the total size of its
  \<^verbatim>\<open>planned_items\<close>.\<close>

definition sorted_node :: "heap \<Rightarrow> heap \<Rightarrow> node_ref \<Rightarrow> bool" where
  "sorted_node h h' n =
     (planned_items (node_of h n) \<noteq> None \<and> planned_items (node_of h' n) \<noteq> None
      \<and> planned_used (node_of h' n) = Some (sizes h (planned h' n)))"

text \<open>What every accepted step of a round guarantees: at most \<open>c\<close> items, at least one,
  none of them a leader, and no item's \<^verbatim>\<open>is_leader\<close> changed.\<close>

definition step_ok :: "nat \<Rightarrow> plan_step \<Rightarrow> bool" where
  "step_ok c step =
     (\<forall>h nodes s cpv i h' moved.
        step h nodes s cpv i = Inr (Some (h', moved)) \<longrightarrow>
          length moved \<le> c \<and> moved \<noteq> []
          \<and> (\<forall>j. is_leader (item_of h' j) = is_leader (item_of h j))
          \<and> (\<forall>j\<in>set moved. \<not> is_leader (item_of h j)))"

text \<open>The number of rounds, that is of calls of \<^verbatim>\<open>plan_one\<close>, that the loop of \<^verbatim>\<open>plan\<close>
  executes: a counter along the control flow of \<open>plan_loop\<close>.\<close>

fun plan_loop_rounds :: "nat \<Rightarrow> heap \<Rightarrow> node_ref list \<Rightarrow> settings \<Rightarrow> plan_step \<Rightarrow> nat" where
  "plan_loop_rounds 0 h nodes s step = 0"
| "plan_loop_rounds (Suc k) h nodes s step =
     (case plan_one h nodes s step of
        Inl e \<Rightarrow> 1
      | Inr (h', nodes', None) \<Rightarrow> 1
      | Inr (h', nodes', Some moved_items) \<Rightarrow>
          if moved_items = [] then 1
          else Suc (plan_loop_rounds k h' nodes' s step))"

definition plan_rounds :: "heap \<Rightarrow> node_ref list \<Rightarrow> settings \<Rightarrow> nat" where
  "plan_rounds h nodes s =
     (case plan_init h nodes of
        Inl e \<Rightarrow> 0
      | Inr h0 \<Rightarrow>
          plan_loop_rounds (nat (max_iters s)) h0 nodes s
            (if swap s then plan_step_swap else plan_step_move))"

section \<open>Constructors and inputs\<close>

text \<open>\<^verbatim>\<open>Disk.__init__\<close> (the mount point gets a trailing slash) with the \<^verbatim>\<open>initial_items\<close>
  that \<^verbatim>\<open>fetch_replicas\<close> assigns, and \<^verbatim>\<open>PartitionReplica.__init__\<close>.\<close>

definition Disk :: "broker_ref \<Rightarrow> string \<Rightarrow> int \<Rightarrow> item_ref list \<Rightarrow> node" where
  "Disk b mp cap replicas =
     \<lparr> capacity = cap, initial_items = replicas, planned_items = None, planned_used = None,
       broker = b,
       mount_point = (if mp \<noteq> [] \<and> last mp = CHR ''/'' then mp else mp @ ''/'') \<rparr>"

definition PartitionReplica ::
  "node_ref \<Rightarrow> string \<Rightarrow> int \<Rightarrow> nat \<Rightarrow> bool \<Rightarrow> int \<Rightarrow> item" where
  "PartitionReplica disk t p rid leader sz =
     \<lparr> size_i = sz, initial_owner = Some disk, planned_owner = None,
       topic = t, id_p = p, replica_id = rid, is_leader = leader \<rparr>"

text \<open>A heap holding the given objects at the references \<open>0, 1, \<dots>\<close>; every other
  reference holds an empty object.\<close>

definition heap_of :: "node list \<Rightarrow> item list \<Rightarrow> broker list \<Rightarrow> heap" where
  "heap_of ns its bs =
     \<lparr> node_of = (\<lambda>r. if r < length ns then ns ! r else Disk 0 [] 0 []),
       item_of = (\<lambda>r. if r < length its then its ! r
                      else \<lparr> size_i = 0, initial_owner = None, planned_owner = None,
                             topic = [], id_p = 0, replica_id = 0, is_leader = False \<rparr>),
       broker_of = (\<lambda>r. if r < length bs then bs ! r else \<lparr> id_b = 0, disks = [] \<rparr>) \<rparr>"

text \<open>What \<^verbatim>\<open>plan\<close> returns to its caller: the list of moves, or the exception.\<close>

definition returned ::
  "error + (heap \<times> node_ref list \<times> item_ref list) \<Rightarrow> error + item_ref list" where
  "returned res = (case res of Inl e \<Rightarrow> Inl e | Inr (h, nodes, moves) \<Rightarrow> Inr moves)"

text \<open>Scenario S4 of the specification: disk 0 of broker 0 holds \<open>big\<close> (80), disk 1 of
  broker 1 holds \<open>tiny\<close> (5), both of capacity 100; swap mode, thresholds 10 and 50.\<close>

definition S4_heap :: heap where
  "S4_heap =
     heap_of
       [Disk 0 ''/kafka/0'' 100 [0], Disk 1 ''/kafka/0'' 100 [1]]
       [PartitionReplica 0 ''big'' 0 0 False 80, PartitionReplica 1 ''tiny'' 0 0 False 5]
       [\<lparr> id_b = 0, disks = [0] \<rparr>, \<lparr> id_b = 1, disks = [1] \<rparr>]"

definition S4_settings :: settings where
  "S4_settings = PlanSettings 5 10 (Some 50) True"

text \<open>Scenario S1: disk 0 of broker 0 holds items of sizes 40, 30 and 20, disk 1 of broker 1
  is empty, both of capacity 100; move mode, five rounds, threshold 5 percent.\<close>

definition S1_heap :: heap where
  "S1_heap =
     heap_of
       [Disk 0 ''/kafka/0'' 100 [0, 1, 2], Disk 1 ''/kafka/0'' 100 []]
       [PartitionReplica 0 ''T'' 0 1 False 40, PartitionReplica 0 ''T'' 1 1 False 30,
        PartitionReplica 0 ''T'' 2 1 False 20]
       [\<lparr> id_b = 0, disks = [0] \<rparr>, \<lparr> id_b = 1, disks = [1] \<rparr>]"

definition S1_settings :: settings where
  "S1_settings = PlanSettings 5 5 None False"

text \<open>Scenario S2: disk 0 holds one leader replica of size 50, disk 1 is empty, both of
  capacity 100.\<close>

definition S2_heap :: heap where
  "S2_heap =
     heap_of
       [Disk 0 ''/kafka/0'' 100 [0], Disk 1 ''/kafka/0'' 100 []]
       [PartitionReplica 0 ''x'' 0 0 True 50]
       [\<lparr> id_b = 0, disks = [0] \<rparr>, \<lparr> id_b = 1, disks = [1] \<rparr>]"

text \<open>A leader among movable replicas: disk 0 holds a leader of size 40 and two followers
  of sizes 30 and 20, disk 1 is empty.\<close>

definition leader_heap :: heap where
  "leader_heap =
     heap_of
       [Disk 0 ''/kafka/0'' 100 [0, 1, 2], Disk 1 ''/kafka/0'' 100 []]
       [PartitionReplica 0 ''T'' 0 0 True 40, PartitionReplica 0 ''T'' 1 1 False 30,
        PartitionReplica 0 ''T'' 2 1 False 20]
       [\<lparr> id_b = 0, disks = [0] \<rparr>, \<lparr> id_b = 1, disks = [1] \<rparr>]"

text \<open>Every record of the dict has as many log dirs as replicas.\<close>

definition parallel :: "assignments \<Rightarrow> bool" where
  "parallel na = (\<forall>(k, r) \<in> set na. length (replicas_a r) = length (log_dirs_a r))"

text \<open>The replica lists of the dict, by key, or the exception.\<close>

definition replica_table ::
  "error + (assignments \<times> nat) \<Rightarrow> error + (string \<times> int list) list" where
  "replica_table res =
     (case res of
        Inl e \<Rightarrow> Inl e
      | Inr (na, k) \<Rightarrow> Inr (map (\<lambda>(key, r). (key, replicas_a r)) na))"

text \<open>
  Inputs of the document builder. Partition \<open>T-0\<close> has the replicas \<open>[1, 2, 3]\<close>, partition
  \<open>U-0\<close> the replicas \<open>[7, 2]\<close>. Disk 0 is \<^verbatim>\<open>/kafka/0\<close> on broker 5, disk 1 is
  \<^verbatim>\<open>/kafka/1\<close> on broker 2, disk 2 is \<^verbatim>\<open>/kafka/0\<close> on broker 6; disk 3 on broker 1 and
  disk 4 on broker 2 are where the moved replicas start. Item 0 is replica 0 of \<open>T-0\<close>,
  planned onto disk 0; item 1 is replica 1 of \<open>T-0\<close>, planned onto disk 2; item 2 is
  replica 1 of \<open>U-0\<close>, planned onto disk 1 (another disk of its own broker 2); item 3 is
  replica 1 of \<open>T-0\<close> again, but planned onto disk 0 as in scenario S5. The random source
  \<open>draw0\<close> always draws 0, \<open>draw1\<close> always 1.
\<close>

definition doc_partitions :: "string \<times> int \<rightharpoonup> int \<times> int list" where
  "doc_partitions = [(''T'', 0) \<mapsto> (1, [1, 2, 3]), (''U'', 0) \<mapsto> (7, [7, 2])]"

definition doc_heap :: heap where
  "doc_heap =
     heap_of
       [Disk 0 ''/kafka/0'' 100 [], Disk 1 ''/kafka/1'' 100 [], Disk 2 ''/kafka/0'' 100 [],
        Disk 3 ''/kafka/0'' 100 [0], Disk 1 ''/kafka/0'' 100 [1, 2, 3]]
       [(PartitionReplica 3 ''T'' 0 0 False 10) \<lparr> planned_owner := Some 0 \<rparr>,
        (PartitionReplica 4 ''T'' 0 1 False 10) \<lparr> planned_owner := Some 2 \<rparr>,
        (PartitionReplica 4 ''U'' 0 1 False 10) \<lparr> planned_owner := Some 1 \<rparr>,
        (PartitionReplica 4 ''T'' 0 1 False 10) \<lparr> planned_owner := Some 0 \<rparr>]
       [\<lparr> id_b = 5, disks = [0] \<rparr>, \<lparr> id_b = 2, disks = [1, 4] \<rparr>, \<lparr> id_b = 6, disks = [2] \<rparr>,
        \<lparr> id_b = 1, disks = [3] \<rparr>]"

definition draw0 :: "nat \<Rightarrow> nat" where
  "draw0 k = 0"

definition draw1 :: "nat \<Rightarrow> nat" where
  "draw1 k = 1"

section \<open>Properties of a placement\<close>

text \<open>The multiset of items held across the nodes under the plan, and the one held
  initially; each node object counts once.\<close>

definition held :: "heap \<Rightarrow> node_ref list \<Rightarrow> item_ref multiset" where
  "held h nodes = (\<Sum>n \<in> set nodes. mset (planned h n))"

definition initially_held :: "heap \<Rightarrow> node_ref list \<Rightarrow> item_ref multiset" where
  "initially_held h nodes = (\<Sum>n \<in> set nodes. mset (initial_items (node_of h n)))"

text \<open>Every item that the nodes hold and that has not moved has its initial owner among
  the nodes.\<close>

definition owners_known :: "heap \<Rightarrow> node_ref list \<Rightarrow> bool" where
  "owners_known h nodes =
     (\<forall>n \<in> set nodes. \<forall>i \<in> set (planned h n).
        planned_owner (item_of h i) = None \<longrightarrow>
          (\<exists>m \<in> set nodes. initial_owner (item_of h i) = Some m))"

text \<open>Every node holds at most its capacity, and no held item has a negative size.\<close>

definition within_capacity :: "heap \<Rightarrow> node_ref list \<Rightarrow> bool" where
  "within_capacity h nodes =
     (\<forall>n \<in> set nodes. sizes h (planned h n) \<le> capacity (node_of h n))"

definition sizes_nonneg :: "heap \<Rightarrow> node_ref list \<Rightarrow> bool" where
  "sizes_nonneg h nodes =
     (\<forall>n \<in> set nodes. \<forall>i \<in> set (planned h n). 0 \<le> size_i (item_of h i))"


text \<open>The step function that \<^verbatim>\<open>plan\<close> selects.\<close>

definition plan_step_of :: "settings \<Rightarrow> plan_step" where
  "plan_step_of s = (if swap s then plan_step_swap else plan_step_move)"

text \<open>Scenario S1 after the initialisation loops of \<^verbatim>\<open>plan\<close>.\<close>

definition S1_ready :: heap where
  "S1_ready = (case plan_init S1_heap [0, 1] of Inl e \<Rightarrow> S1_heap | Inr h0 \<Rightarrow> h0)"

text \<open>Observations on the state that \<^verbatim>\<open>plan\<close> leaves: what a node holds, and its
  capacity.\<close>

definition used_after ::
  "error + (heap \<times> node_ref list \<times> item_ref list) \<Rightarrow> node_ref \<Rightarrow> int option" where
  "used_after res n =
     (case res of Inl e \<Rightarrow> None | Inr (h', nodes', moves) \<Rightarrow> Some (sizes h' (planned h' n)))"

definition capacity_after ::
  "error + (heap \<times> node_ref list \<times> item_ref list) \<Rightarrow> node_ref \<Rightarrow> int option" where
  "capacity_after res n =
     (case res of Inl e \<Rightarrow> None | Inr (h', nodes', moves) \<Rightarrow> Some (capacity (node_of h' n)))"

text \<open>A disk that starts above its capacity: disk 0 of capacity 100 holds a leader of size
  150 and a follower of size 20; disk 1 of capacity 1000 is empty.\<close>

definition over_heap :: heap where
  "over_heap =
     heap_of
       [Disk 0 ''/kafka/0'' 100 [0, 1], Disk 1 ''/kafka/0'' 1000 []]
       [PartitionReplica 0 ''T'' 0 0 True 150, PartitionReplica 0 ''T'' 1 1 False 20]
       [\<lparr> id_b = 0, disks = [0] \<rparr>, \<lparr> id_b = 1, disks = [1] \<rparr>]"

text \<open>The outcome of a round: the moved items, and the variance that the next round would
  compute.\<close>

definition accepted ::
  "error + (heap \<times> node_ref list \<times> item_ref list option) \<Rightarrow> error + item_ref list option" where
  "accepted res = (case res of Inl e \<Rightarrow> Inl e | Inr (h', nodes', m) \<Rightarrow> Inr m)"





section \<open>Frame lemmas\<close>

text \<open>Attribute writes leave the other fields alone.\<close>

lemma item_of_set_planned_items [simp]: "item_of (set_planned_items h r its) = item_of h"
  by (simp add: set_planned_items_def)

lemma item_of_set_planned_used [simp]: "item_of (set_planned_used h r u) = item_of h"
  by (simp add: set_planned_used_def)

lemma is_leader_set_planned_owner [simp]:
  "is_leader (item_of (set_planned_owner h i r) j) = is_leader (item_of h j)"
  by (simp add: set_planned_owner_def)

lemma is_leader_set_initial_owner [simp]:
  "is_leader (item_of (set_initial_owner h i r) j) = is_leader (item_of h j)"
  by (simp add: set_initial_owner_def)

lemma static_refl [simp]: "static h h"
  by (simp add: static_def)

lemma static_trans: "static h h1 \<Longrightarrow> static h1 h2 \<Longrightarrow> static h h2"
  by (simp add: static_def)

lemma static_set_planned_items [simp]: "static h (set_planned_items h r its)"
  by (simp add: static_def set_planned_items_def)

lemma static_set_planned_used [simp]: "static h (set_planned_used h r u)"
  by (simp add: static_def set_planned_used_def)

lemma static_set_planned_owner [simp]: "static h (set_planned_owner h i r)"
  by (simp add: static_def set_planned_owner_def)

lemma static_set_initial_owner [simp]: "static h (set_initial_owner h i r)"
  by (simp add: static_def set_initial_owner_def)

lemma sizes_static: "static h h' \<Longrightarrow> sizes h' its = sizes h its"
  by (simp add: static_def sizes_def)

lemma sum_list_map_mset:
  fixes f :: "'a \<Rightarrow> 'b::comm_monoid_add"
  shows "mset xs = mset ys \<Longrightarrow> sum_list (map f xs) = sum_list (map f ys)"
  by (metis mset_map sum_mset_sum_list)

lemma sizes_mset: "mset xs = mset ys \<Longrightarrow> sizes h xs = sizes h ys"
  unfolding sizes_def by (rule sum_list_map_mset)

subsection \<open>\<^verbatim>\<open>planned_sort\<close> and \<^verbatim>\<open>resort\<close>\<close>

lemma planned_sort_effect:
  assumes "planned_sort h r = Inr h'"
  shows "static h h'" and "item_of h' = item_of h"
    and "planned_items (node_of h r) \<noteq> None"
    and "planned_items (node_of h' r) = Some (sort_key (\<lambda>i. - size_i (item_of h i)) (planned h r))"
    and "planned_used (node_of h' r) = Some (sizes h (planned h' r))"
    and "\<And>n. n \<noteq> r \<Longrightarrow> node_of h' n = node_of h n"
  using assms
  by (auto simp: planned_sort_def planned_def sizes_def Let_def static_def
      set_planned_items_def set_planned_used_def split: option.splits)

lemma planned_sort_succeeds:
  "planned_items (node_of h r) \<noteq> None \<Longrightarrow> \<exists>h'. planned_sort h r = Inr h'"
  by (auto simp: planned_sort_def Let_def split: option.splits)

lemma planned_sort_all_effect:
  "planned_sort_all h rs = Inr h' \<Longrightarrow>
     static h h' \<and> item_of h' = item_of h
     \<and> (\<forall>n. mset (planned h' n) = mset (planned h n)
            \<and> (n \<in> set rs \<longrightarrow> sorted_node h h' n)
            \<and> (n \<notin> set rs \<longrightarrow> node_of h' n = node_of h n))"
proof (induction rs arbitrary: h)
  case Nil
  then show ?case by simp
next
  case (Cons r rs)
  from Cons.prems obtain h1 where s1: "planned_sort h r = Inr h1"
    and s2: "planned_sort_all h1 rs = Inr h'"
    by (auto split: sum.splits)
  note e1 = planned_sort_effect [OF s1]
  from Cons.IH [OF s2] have st: "static h1 h'" and it: "item_of h' = item_of h1"
    and ih: "\<And>n. mset (planned h' n) = mset (planned h1 n)"
      "\<And>n. n \<in> set rs \<Longrightarrow> sorted_node h1 h' n"
      "\<And>n. n \<notin> set rs \<Longrightarrow> node_of h' n = node_of h1 n"
    by blast+
  have sz: "sizes h1 xs = sizes h xs" for xs
    by (simp add: sizes_def e1(2))
  have p1: "mset (planned h1 n) = mset (planned h n)" for n
  proof (cases "n = r")
    case True
    with e1(4) show ?thesis by (simp add: planned_def)
  next
    case False
    with e1(6) show ?thesis by (simp add: planned_def)
  qed
  have sn: "sorted_node h h' n" if "n \<in> set (r # rs)" for n
  proof (cases "n \<in> set rs")
    case True
    from ih(2) [OF True] have a: "sorted_node h1 h' n" .
    have "planned_items (node_of h n) \<noteq> None"
    proof (cases "n = r")
      case True
      with e1(3) show ?thesis by simp
    next
      case False
      with e1(6) a show ?thesis by (simp add: sorted_node_def)
    qed
    with a show ?thesis by (simp add: sorted_node_def sz)
  next
    case False
    with that have nr: "n = r" by simp
    from ih(3) [OF False] have "node_of h' n = node_of h1 n" .
    with e1(3,4,5) nr show ?thesis
      by (simp add: sorted_node_def planned_def)
  qed
  have un: "node_of h' n = node_of h n" if "n \<notin> set (r # rs)" for n
    using that ih(3) [of n] e1(6) [of n] by simp
  from static_trans [OF e1(1) st] it e1(2) ih(1) p1 sn un show ?case
    by simp
qed

lemma planned_sort_all_succeeds:
  "(\<forall>n \<in> set rs. planned_items (node_of h n) \<noteq> None) \<Longrightarrow> \<exists>h'. planned_sort_all h rs = Inr h'"
proof (induction rs arbitrary: h)
  case Nil
  then show ?case by simp
next
  case (Cons r rs)
  then obtain h1 where s1: "planned_sort h r = Inr h1"
    using planned_sort_succeeds [of h r] by auto
  note e1 = planned_sort_effect [OF s1]
  have "\<forall>n \<in> set rs. planned_items (node_of h1 n) \<noteq> None"
  proof
    fix n assume n: "n \<in> set rs"
    show "planned_items (node_of h1 n) \<noteq> None"
    proof (cases "n = r")
      case True
      with e1(4) show ?thesis by simp
    next
      case False
      with e1(6) n Cons.prems show ?thesis by simp
    qed
  qed
  from Cons.IH [OF this] s1 show ?case by auto
qed

lemma map_e_Inr:
  "map_e f xs = Inr ys \<Longrightarrow> ys = map (\<lambda>x. projr (f x)) xs \<and> (\<forall>x \<in> set xs. \<exists>y. f x = Inr y)"
  by (induction xs arbitrary: ys) (auto split: sum.splits)

lemma map_e_succeeds:
  "(\<forall>x \<in> set xs. \<exists>y. f x = Inr y) \<Longrightarrow> map_e f xs = Inr (map (\<lambda>x. projr (f x)) xs)"
  by (induction xs) auto

lemma resort_effect:
  assumes "resort h nodes = Inr (h', nodes')"
  shows "static h h'" and "item_of h' = item_of h"
    and "mset nodes' = mset nodes"
    and "\<And>n. mset (planned h' n) = mset (planned h n)"
    and "\<And>n. n \<in> set nodes \<Longrightarrow> sorted_node h h' n \<and> capacity (node_of h n) \<noteq> 0"
    and "\<And>n. n \<notin> set nodes \<Longrightarrow> node_of h' n = node_of h n"
proof -
  from assms obtain keys where a: "planned_sort_all h nodes = Inr h'"
    and k: "map_e (\<lambda>n. planned_fraction_used (node_of h' n)) nodes = Inr keys"
    and n': "nodes' = sort_key (\<lambda>n. - fraction_key h' n) nodes"
    by (auto simp: resort_def split: sum.splits)
  note e = planned_sort_all_effect [OF a]
  from e show "static h h'" and "item_of h' = item_of h"
    and "\<And>n. mset (planned h' n) = mset (planned h n)"
    and "\<And>n. n \<notin> set nodes \<Longrightarrow> node_of h' n = node_of h n"
    by blast+
  from n' show "mset nodes' = mset nodes" by simp
  fix n assume n: "n \<in> set nodes"
  from map_e_Inr [OF k] n obtain q where "planned_fraction_used (node_of h' n) = Inr q"
    by blast
  then have "capacity (node_of h' n) \<noteq> 0"
    by (auto simp: planned_fraction_used_def split: option.splits if_splits)
  with e n show "sorted_node h h' n \<and> capacity (node_of h n) \<noteq> 0"
    by (simp add: static_def)
qed

lemma resort_succeeds:
  assumes "\<forall>n \<in> set nodes. planned_items (node_of h n) \<noteq> None \<and> capacity (node_of h n) \<noteq> 0"
  shows "\<exists>h' nodes'. resort h nodes = Inr (h', nodes')"
proof -
  from assms planned_sort_all_succeeds [of nodes h]
  obtain h' where a: "planned_sort_all h nodes = Inr h'" by auto
  note e = planned_sort_all_effect [OF a]
  have "\<forall>n \<in> set nodes. \<exists>q. planned_fraction_used (node_of h' n) = Inr q"
  proof
    fix n assume n: "n \<in> set nodes"
    with e have "sorted_node h h' n" by blast
    moreover from e assms n have "capacity (node_of h' n) \<noteq> 0" by (simp add: static_def)
    ultimately show "\<exists>q. planned_fraction_used (node_of h' n) = Inr q"
      by (simp add: planned_fraction_used_def sorted_node_def)
  qed
  from map_e_succeeds [OF this] a show ?thesis
    by (simp add: resort_def)
qed

subsection \<open>Leaders\<close>

lemma move_is_leader:
  "move h i d = Inr h' \<Longrightarrow> is_leader (item_of h' j) = is_leader (item_of h j)"
  by (auto simp: move_def Let_def split: option.splits if_splits)

lemma planned_sort_item_of: "planned_sort h r = Inr h' \<Longrightarrow> item_of h' = item_of h"
  by (auto simp: planned_sort_def Let_def split: option.splits)

lemma planned_sort_all_item_of: "planned_sort_all h rs = Inr h' \<Longrightarrow> item_of h' = item_of h"
  by (induction rs arbitrary: h) (auto split: sum.splits dest: planned_sort_item_of)

lemma resort_item_of: "resort h nodes = Inr (h', nodes') \<Longrightarrow> item_of h' = item_of h"
  by (auto simp: resort_def split: sum.splits dest: planned_sort_all_item_of)

lemma plan_init_items_is_leader:
  "plan_init_items h r its = Inr h' \<Longrightarrow> is_leader (item_of h' j) = is_leader (item_of h j)"
  by (induction its arbitrary: h) (auto split: option.splits if_splits)

lemma plan_init_is_leader:
  "plan_init h rs = Inr h' \<Longrightarrow> is_leader (item_of h' j) = is_leader (item_of h j)"
proof (induction rs arbitrary: h)
  case Nil
  then show ?case by simp
next
  case (Cons r rs)
  from Cons.prems obtain h2 where
    a: "plan_init_items (set_planned_items h r (initial_items (node_of h r))) r
          (initial_items (node_of (set_planned_items h r (initial_items (node_of h r))) r)) = Inr h2"
    and b: "plan_init h2 rs = Inr h'"
    by (auto simp: Let_def split: sum.splits)
  from plan_init_items_is_leader [OF a] Cons.IH [OF b] show ?case by simp
qed

subsection \<open>What an accepted step says\<close>

lemma plan_step_move_loop_Some:
  "plan_step_move_loop h nodes s cpv i rs = Inr (Some (h', moved)) \<Longrightarrow>
   \<exists>r \<in> set rs. moved = [i] \<and> can_move_to h i r = Inr True \<and> move h i r = Inr h'"
  by (induction rs) (auto split: sum.splits option.splits if_splits bool.splits)

lemma can_move_to_not_leader: "can_move_to h i r = Inr True \<Longrightarrow> \<not> is_leader (item_of h i)"
  by (auto simp: can_move_to_def split: if_splits)

lemma step_ok_move: "step_ok 1 plan_step_move"
  unfolding step_ok_def plan_step_move_def
  by (auto dest!: plan_step_move_loop_Some dest: can_move_to_not_leader move_is_leader)

lemma step_ok_swap: "step_ok 2 plan_step_swap"
  unfolding step_ok_def by (simp add: plan_step_swap_def iter_small_items_def)

lemma plan_one_loop_Some:
  "plan_one_loop step h nodes s cpv cands err = Inr (Some (h', moved)) \<Longrightarrow>
   \<exists>i \<in> set cands. step h nodes s cpv i = Inr (Some (h', moved))"
  by (induction cands) (auto split: sum.splits option.splits)

lemma plan_one_Some:
  assumes "plan_one h nodes s step = Inr (h', nodes', Some moved)"
  shows "\<exists>h1 cpv i. resort h nodes = Inr (h1, nodes') \<and> percent_used_variance h1 nodes' [] [] = Inr cpv
     \<and> i \<in> set (fst (iter_large_items s h1 nodes')) \<and> step h1 nodes' s cpv i = Inr (Some (h', moved))"
  using assms unfolding plan_one_def
  by (auto split: sum.splits option.splits prod.splits dest!: plan_one_loop_Some)

lemma plan_one_None:
  assumes "plan_one h nodes s step = Inr (h', nodes', None)"
  shows "resort h nodes = Inr (h', nodes')"
  using assms unfolding plan_one_def
  by (auto split: sum.splits option.splits prod.splits)

lemma plan_loop_bound:
  assumes "step_ok c step"
  shows "plan_loop k h nodes s step acc = Inr (h', nodes', moves) \<Longrightarrow>
     length moves \<le> length acc + c * k"
proof (induction k arbitrary: h nodes acc)
  case 0
  then show ?case by simp
next
  case (Suc k)
  show ?case
  proof (cases "plan_one h nodes s step")
    case (Inl e)
    with Suc.prems show ?thesis by simp
  next
    case (Inr res)
    obtain h1 nodes1 m where res: "res = (h1, nodes1, m)" by (cases res) auto
    show ?thesis
    proof (cases m)
      case None
      with Inr res Suc.prems show ?thesis by simp
    next
      case (Some moved)
      from plan_one_Some [OF Inr [unfolded res Some]] assms
      have len: "length moved \<le> c" unfolding step_ok_def by blast
      show ?thesis
      proof (cases "moved = []")
        case True
        with Inr res Some Suc.prems show ?thesis by simp
      next
        case False
        with Inr res Some Suc.prems
        have "plan_loop k h1 nodes1 s step (acc @ moved) = Inr (h', nodes', moves)" by simp
        from Suc.IH [OF this] len show ?thesis by simp
      qed
    qed
  qed
qed

lemma plan_step_ok: "step_ok (if swap s then 2 else 1) (if swap s then plan_step_swap else plan_step_move)"
  using step_ok_move step_ok_swap by (cases "swap s") simp_all

subsection \<open>The swap step raises\<close>

lemma iter_small_items_settings:
  "iter_small_items h settings_arg (PySettings s) large_node = ([], Some TypeError)"
  by (simp add: iter_small_items_def)

lemma plan_step_swap_raises:
  "plan_step_swap h nodes s current_pvariance large_item = Inl TypeError"
  by (simp add: plan_step_swap_def iter_small_items_settings)


subsection \<open>Initialisation\<close>

lemma plan_init_items_effect:
  "plan_init_items h r its = Inr h' \<Longrightarrow>
     static h h' \<and> node_of h' = node_of h
     \<and> (\<forall>i \<in> set its. initial_owner (item_of h' i) = Some r \<and> planned_owner (item_of h' i) = None)
     \<and> (\<forall>i m. initial_owner (item_of h i) = Some m \<longrightarrow> initial_owner (item_of h' i) = Some m)
     \<and> (\<forall>i. planned_owner (item_of h i) = None \<longrightarrow> planned_owner (item_of h' i) = None)"
proof (induction its arbitrary: h)
  case Nil
  then show ?case by simp
next
  case (Cons i its)
  define h1 where "h1 = (case initial_owner (item_of h i) of
      None \<Rightarrow> set_planned_owner (set_initial_owner h i r) i None
    | Some own \<Rightarrow> set_planned_owner h i None)"
  from Cons.prems have ok: "initial_owner (item_of h i) = None \<or> initial_owner (item_of h i) = Some r"
    and rest: "plan_init_items h1 r its = Inr h'"
    by (auto simp: h1_def split: option.splits if_splits)
  have st: "static h h1" and nd: "node_of h1 = node_of h"
    and hd: "initial_owner (item_of h1 i) = Some r" "planned_owner (item_of h1 i) = None"
    and io: "\<And>j m. initial_owner (item_of h j) = Some m \<Longrightarrow> initial_owner (item_of h1 j) = Some m"
    and po: "\<And>j. planned_owner (item_of h j) = None \<Longrightarrow> planned_owner (item_of h1 j) = None"
    using ok
    by (auto simp: h1_def static_def set_planned_owner_def set_initial_owner_def split: option.splits)
  from Cons.IH [OF rest] st nd hd io po show ?case
    by (auto intro: static_trans)
qed

lemma plan_init_effect:
  "plan_init h rs = Inr h' \<Longrightarrow>
     static h h'
     \<and> (\<forall>n. (n \<in> set rs \<longrightarrow> planned_items (node_of h' n) = Some (initial_items (node_of h n)))
          \<and> (planned_items (node_of h n) = Some (initial_items (node_of h n)) \<longrightarrow>
               planned_items (node_of h' n) = Some (initial_items (node_of h n)))
          \<and> (n \<in> set rs \<longrightarrow> (\<forall>i \<in> set (initial_items (node_of h n)).
                initial_owner (item_of h' i) = Some n \<and> planned_owner (item_of h' i) = None)))
     \<and> (\<forall>i m. initial_owner (item_of h i) = Some m \<longrightarrow> initial_owner (item_of h' i) = Some m)
     \<and> (\<forall>i. planned_owner (item_of h i) = None \<longrightarrow> planned_owner (item_of h' i) = None)"
proof (induction rs arbitrary: h)
  case Nil
  then show ?case by simp
next
  case (Cons r rs)
  define h1 where "h1 = set_planned_items h r (initial_items (node_of h r))"
  from Cons.prems obtain h2 where
    a: "plan_init_items h1 r (initial_items (node_of h1 r)) = Inr h2"
    and b: "plan_init h2 rs = Inr h'"
    by (auto simp: Let_def h1_def split: sum.splits)
  have st1: "static h h1" by (simp add: h1_def)
  have it1: "item_of h1 = item_of h" by (simp add: h1_def)
  have ini1: "initial_items (node_of h1 n) = initial_items (node_of h n)" for n
    using st1 by (simp add: static_def)
  have pl1: "planned_items (node_of h1 r) = Some (initial_items (node_of h r))"
    by (simp add: h1_def set_planned_items_def)
  have oth1: "n \<noteq> r \<Longrightarrow> node_of h1 n = node_of h n" for n
    by (simp add: h1_def set_planned_items_def)
  note e2 = plan_init_items_effect [OF a]
  from e2 have st2: "static h1 h2" and nd2: "node_of h2 = node_of h1" by blast+
  have ini2: "initial_items (node_of h2 n) = initial_items (node_of h n)" for n
    by (simp add: nd2 ini1)
  note e3 = Cons.IH [OF b]
  from e3 have st3: "static h2 h'" by blast
  have keep: "planned_items (node_of h n) = Some (initial_items (node_of h n)) \<Longrightarrow>
      planned_items (node_of h' n) = Some (initial_items (node_of h n))" for n
  proof -
    assume p: "planned_items (node_of h n) = Some (initial_items (node_of h n))"
    have "planned_items (node_of h2 n) = Some (initial_items (node_of h2 n))"
    proof (cases "n = r")
      case True
      with pl1 show ?thesis by (simp add: nd2 ini1)
    next
      case False
      with p oth1 show ?thesis by (simp add: nd2)
    qed
    with e3 show ?thesis by (simp add: ini2)
  qed
  have hdpl: "planned_items (node_of h' r) = Some (initial_items (node_of h r))"
  proof -
    have "planned_items (node_of h2 r) = Some (initial_items (node_of h2 r))"
      using pl1 by (simp add: nd2 ini1)
    with e3 show ?thesis by (simp add: ini2)
  qed
  have hdit: "initial_owner (item_of h' i) = Some r \<and> planned_owner (item_of h' i) = None"
    if "i \<in> set (initial_items (node_of h r))" for i
  proof -
    from that e2 have "initial_owner (item_of h2 i) = Some r \<and> planned_owner (item_of h2 i) = None"
      by (simp add: ini1)
    with e3 show ?thesis by blast
  qed
  have io: "initial_owner (item_of h' i) = Some m" if "initial_owner (item_of h i) = Some m" for i m
  proof -
    from that e2 have "initial_owner (item_of h2 i) = Some m" by (simp add: it1)
    with e3 show ?thesis by blast
  qed
  have po: "planned_owner (item_of h' i) = None" if "planned_owner (item_of h i) = None" for i
  proof -
    from that e2 have "planned_owner (item_of h2 i) = None" by (simp add: it1)
    with e3 show ?thesis by blast
  qed
  have tl: "planned_items (node_of h' n) = Some (initial_items (node_of h n))
      \<and> (\<forall>i \<in> set (initial_items (node_of h n)).
            initial_owner (item_of h' i) = Some n \<and> planned_owner (item_of h' i) = None)"
    if "n \<in> set rs" for n
    using e3 that by (simp add: ini2)
  from static_trans [OF static_trans [OF st1 st2] st3] keep hdpl hdit io po tl
  show ?case by auto
qed

lemma plan_init_raises: "plan_init_items h r its = Inl e \<Longrightarrow> e = RuntimeError"
  by (induction its arbitrary: h) (auto split: option.splits if_splits)


subsection \<open>The start of a round\<close>


lemma sorted_node_percentage:
  "sorted_node h h' n \<Longrightarrow> capacity (node_of h' n) \<noteq> 0 \<Longrightarrow>
     percentage h' inc exc n
       = Inr (of_int (sizes h (planned h' n) - anchored h' n exc + anchored h' n inc)
                / of_int (capacity (node_of h' n)))"
  by (simp add: sorted_node_def percentage_def)

lemma pvariance_succeeds: "xs \<noteq> [] \<Longrightarrow> \<exists>v. pvariance xs = Inr v"
  by (simp add: pvariance_def Let_def)

lemma percent_used_variance_succeeds:
  assumes "nodes \<noteq> []"
    and "\<forall>n \<in> set nodes. sorted_node h h' n \<and> capacity (node_of h' n) \<noteq> 0"
  shows "\<exists>v. percent_used_variance h' nodes inc exc = Inr v"
proof -
  from assms(2) have "\<forall>n \<in> set nodes. \<exists>q. percentage h' inc exc n = Inr q"
    by (auto simp: sorted_node_percentage)
  from map_e_succeeds [OF this] assms(1) pvariance_succeeds
  show ?thesis by (simp add: percent_used_variance_def)
qed

lemma iter_large_from_ok:
  assumes "\<exists>q. planned_fraction_used (node_of h lst) = Inr q"
    and "\<forall>r \<in> set rs. (\<exists>q. planned_fraction_used (node_of h r) = Inr q)
            \<and> planned_items (node_of h r) \<noteq> None"
  shows "snd (iter_large_from s h lst rs) = None
     \<and> (\<forall>i \<in> set (fst (iter_large_from s h lst rs)).
           planned_owner (item_of h i) = None \<and> (\<exists>r \<in> set rs. i \<in> set (planned h r)))"
  using assms(2)
proof (induction rs)
  case Nil
  then show ?case by simp
next
  case (Cons r rs)
  from assms(1) obtain fl where fl: "planned_fraction_used (node_of h lst) = Inr fl" by blast
  from Cons.prems obtain fr its where fr: "planned_fraction_used (node_of h r) = Inr fr"
    and its: "planned_items (node_of h r) = Some its" by auto
  obtain zs e where rec: "iter_large_from s h lst rs = (zs, e)"
    by (cases "iter_large_from s h lst rs") auto
  from Cons.IH Cons.prems rec have e: "e = None"
    and zs: "\<forall>i \<in> set zs. planned_owner (item_of h i) = None \<and> (\<exists>r \<in> set rs. i \<in> set (planned h r))"
    by auto
  show ?case
  proof (cases "\<bar>fl - fr\<bar> < node_fraction_threshold s")
    case True
    with fl fr show ?thesis by simp
  next
    case False
    have pl: "planned h r = its" by (simp add: planned_def its)
    from False fl fr its rec e zs show ?thesis
      by (auto simp: has_moved_def pl)
  qed
qed

lemma plan_one_loop_None:
  "\<forall>i \<in> set cands. step h nodes s cpv i = Inr None \<Longrightarrow>
     plan_one_loop step h nodes s cpv cands None = Inr None"
  by (induction cands) auto

lemma can_move_to_False:
  "is_leader (item_of h i) \<or> initial_owner (item_of h i) = Some r \<Longrightarrow>
     can_move_to h i r = Inr False"
  by (auto simp: can_move_to_def item_can_move_to_def)

lemma plan_step_move_loop_None:
  assumes "\<forall>r \<in> set rs. \<exists>q. planned_fraction_used (node_of h r) = Inr q"
    and "current_owner (item_of h i) = Some own"
    and "planned_fraction_used (node_of h own) = Inr qo"
    and "\<forall>r \<in> set rs. can_move_to h i r = Inr False"
  shows "plan_step_move_loop h nodes s cpv i rs = Inr None"
  using assms by (induction rs) auto

text \<open>The first half of plan_one on a state where it cannot raise.\<close>

lemma plan_one_start:
  assumes ne: "nodes \<noteq> []"
    and ok: "\<forall>n \<in> set nodes. planned_items (node_of h n) \<noteq> None \<and> capacity (node_of h n) \<noteq> 0"
  shows "\<exists>h1 nodes1 cpv larges.
     resort h nodes = Inr (h1, nodes1)
     \<and> percent_used_variance h1 nodes1 [] [] = Inr cpv
     \<and> iter_large_items s h1 nodes1 = (larges, None)
     \<and> (\<forall>i \<in> set larges. planned_owner (item_of h i) = None
            \<and> (\<exists>n \<in> set nodes. i \<in> set (planned h n)))"
proof -
  from resort_succeeds [OF ok] obtain h1 nodes1 where r: "resort h nodes = Inr (h1, nodes1)"
    by blast
  note e = resort_effect [OF r]
  from e(3) have sn: "set nodes1 = set nodes" by (metis set_mset_mset)
  from e(3) ne have ne1: "nodes1 \<noteq> []" by auto
  have cap: "capacity (node_of h1 n) = capacity (node_of h n)" for n
    using e(1) by (simp add: static_def)
  have s1: "\<forall>n \<in> set nodes1. sorted_node h h1 n \<and> capacity (node_of h1 n) \<noteq> 0"
    using e(5) sn cap by simp
  from percent_used_variance_succeeds [OF ne1 s1] obtain cpv where
    v: "percent_used_variance h1 nodes1 [] [] = Inr cpv" by blast
  have fr: "\<forall>r \<in> set nodes1. (\<exists>q. planned_fraction_used (node_of h1 r) = Inr q)
            \<and> planned_items (node_of h1 r) \<noteq> None"
    using s1 by (auto simp: planned_fraction_used_def sorted_node_def)
  from ne1 have "last nodes1 \<in> set nodes1" by simp
  with fr have fl: "\<exists>q. planned_fraction_used (node_of h1 (last nodes1)) = Inr q" by blast
  note il = iter_large_from_ok [OF fl fr, of s]
  obtain larges where l: "iter_large_items s h1 nodes1 = (larges, None)"
    using il by (cases "iter_large_from s h1 (last nodes1) nodes1") (auto simp: iter_large_items_def)
  have "\<forall>i \<in> set larges. planned_owner (item_of h i) = None
            \<and> (\<exists>n \<in> set nodes. i \<in> set (planned h n))"
  proof
    fix i assume "i \<in> set larges"
    with il l have a: "planned_owner (item_of h1 i) = None"
      and "\<exists>r \<in> set nodes1. i \<in> set (planned h1 r)"
      by (auto simp: iter_large_items_def)
    then obtain r where "r \<in> set nodes" "i \<in> set (planned h1 r)" using sn by auto
    moreover have "set (planned h1 r) = set (planned h r)" using e(4) by (metis set_mset_mset)
    ultimately show "planned_owner (item_of h i) = None
            \<and> (\<exists>n \<in> set nodes. i \<in> set (planned h n))"
      using a e(2) by auto
  qed
  with r v l show ?thesis by blast
qed

text \<open>A round in which no candidate may go anywhere accepts nothing.\<close>

lemma plan_one_no_move:
  assumes ne: "nodes \<noteq> []"
    and ok: "\<forall>n \<in> set nodes. planned_items (node_of h n) \<noteq> None \<and> capacity (node_of h n) \<noteq> 0"
    and own: "\<forall>n \<in> set nodes. \<forall>i \<in> set (planned h n). planned_owner (item_of h i) = None \<longrightarrow>
       (\<exists>m \<in> set nodes. initial_owner (item_of h i) = Some m)
       \<and> (\<forall>r \<in> set nodes. is_leader (item_of h i) \<or> initial_owner (item_of h i) = Some r)"
  shows "\<exists>h1 nodes1. plan_one h nodes s plan_step_move = Inr (h1, nodes1, None)
     \<and> resort h nodes = Inr (h1, nodes1)"
proof -
  from plan_one_start [OF ne ok, of s] obtain h1 nodes1 cpv larges where
    r: "resort h nodes = Inr (h1, nodes1)"
    and v: "percent_used_variance h1 nodes1 [] [] = Inr cpv"
    and l: "iter_large_items s h1 nodes1 = (larges, None)"
    and c: "\<forall>i \<in> set larges. planned_owner (item_of h i) = None
            \<and> (\<exists>n \<in> set nodes. i \<in> set (planned h n))"
    by blast
  note e = resort_effect [OF r]
  from e(3) have sn: "set nodes1 = set nodes" by (metis set_mset_mset)
  have cap: "capacity (node_of h1 n) = capacity (node_of h n)" for n
    using e(1) by (simp add: static_def)
  have ldr: "is_leader (item_of h1 i) = is_leader (item_of h i)" for i
    by (simp add: e(2))
  have fr: "\<forall>r \<in> set nodes1. \<exists>q. planned_fraction_used (node_of h1 r) = Inr q"
    using e(5) sn cap by (auto simp: planned_fraction_used_def sorted_node_def)
  have "\<forall>i \<in> set larges. plan_step_move h1 nodes1 s cpv i = Inr None"
  proof
    fix i assume i: "i \<in> set larges"
    with c obtain n where po: "planned_owner (item_of h i) = None"
      and n: "n \<in> set nodes" "i \<in> set (planned h n)" by blast
    with own obtain m where m: "m \<in> set nodes" "initial_owner (item_of h i) = Some m"
      and all: "\<forall>r \<in> set nodes. is_leader (item_of h i) \<or> initial_owner (item_of h i) = Some r"
      by blast
    have co: "current_owner (item_of h1 i) = Some m"
      using po m by (simp add: current_owner_def e(2))
    from fr m sn obtain qo where qo: "planned_fraction_used (node_of h1 m) = Inr qo" by blast
    have cm: "\<forall>r \<in> set (rev nodes1). can_move_to h1 i r = Inr False"
      using all sn by (auto intro!: can_move_to_False simp: e(2))
    from fr have fr': "\<forall>r \<in> set (rev nodes1). \<exists>q. planned_fraction_used (node_of h1 r) = Inr q"
      by simp
    from plan_step_move_loop_None [OF fr' co qo cm]
    show "plan_step_move h1 nodes1 s cpv i = Inr None"
      by (simp add: plan_step_move_def)
  qed
  then have "plan_one_loop plan_step_move h1 nodes1 s cpv larges None = Inr None"
    by (rule plan_one_loop_None)
  with r v l show ?thesis
    by (simp add: plan_one_def)
qed

subsection \<open>The effect of \<^verbatim>\<open>move\<close>\<close>

lemma move_effect:
  assumes "move h i d = Inr h'"
  shows "\<exists>src its ds.
     current_owner (item_of h i) = Some src
     \<and> planned_items (node_of h src) = Some its \<and> i \<in> set its
     \<and> planned_items (node_of h' d) = Some (ds @ [i])
     \<and> (if src = d then ds = remove1 i its
         else planned_items (node_of h d) = Some ds
              \<and> planned_items (node_of h' src) = Some (remove1 i its))
     \<and> (\<forall>n. n \<noteq> src \<and> n \<noteq> d \<longrightarrow> node_of h' n = node_of h n)
     \<and> (\<forall>n. planned_used (node_of h' n) = planned_used (node_of h n))
     \<and> static h h'
     \<and> (\<forall>j. initial_owner (item_of h' j) = initial_owner (item_of h j))
     \<and> planned_owner (item_of h' i) = Some d
     \<and> (\<forall>j. j \<noteq> i \<longrightarrow> item_of h' j = item_of h j)"
  using assms
  by (auto simp: move_def Let_def static_def set_planned_items_def set_planned_owner_def
      split: option.splits if_splits)

lemma move_mset:
  assumes "move h i d = Inr h'" and "current_owner (item_of h i) = Some src"
  shows "mset (planned h' n) + (if n = src then {#i#} else {#})
           = mset (planned h n) + (if n = d then {#i#} else {#})"
proof -
  from move_effect [OF assms(1)] assms(2) obtain its ds where
    its: "planned_items (node_of h src) = Some its" "i \<in> set its"
    and d: "planned_items (node_of h' d) = Some (ds @ [i])"
    and c: "if src = d then ds = remove1 i its
         else planned_items (node_of h d) = Some ds
              \<and> planned_items (node_of h' src) = Some (remove1 i its)"
    and o: "\<forall>n. n \<noteq> src \<and> n \<noteq> d \<longrightarrow> node_of h' n = node_of h n"
    by auto
  show ?thesis
  proof (cases "src = d")
    case True
    with its d c o show ?thesis
      by (cases "n = d") (auto simp: planned_def)
  next
    case False
    with its d c o show ?thesis
      by (cases "n = d"; cases "n = src") (auto simp: planned_def)
  qed
qed

lemma move_sizes:
  assumes "move h i d = Inr h'" and "current_owner (item_of h i) = Some src"
  shows "sizes h' (planned h' n) + (if n = src then size_i (item_of h i) else 0)
           = sizes h (planned h n) + (if n = d then size_i (item_of h i) else 0)"
proof -
  from move_effect [OF assms(1)] have st: "static h h'" by blast
  have "sum_mset (image_mset (\<lambda>j. size_i (item_of h j))
           (mset (planned h' n) + (if n = src then {#i#} else {#})))
      = sum_mset (image_mset (\<lambda>j. size_i (item_of h j))
           (mset (planned h n) + (if n = d then {#i#} else {#})))"
    by (simp only: move_mset [OF assms])
  then have "sum_list (map (\<lambda>j. size_i (item_of h j)) (planned h' n))
        + (if n = src then size_i (item_of h i) else 0)
      = sum_list (map (\<lambda>j. size_i (item_of h j)) (planned h n))
        + (if n = d then size_i (item_of h i) else 0)"
    by (simp add: sum_mset_sum_list [symmetric] split: if_splits)
  then show ?thesis
    by (simp add: sizes_def sizes_static [OF st, unfolded sizes_def])
qed

subsection \<open>Candidates and accepted rounds\<close>

lemma iter_large_from_items:
  "i \<in> set (fst (iter_large_from s h lst rs)) \<Longrightarrow>
     planned_owner (item_of h i) = None \<and> (\<exists>r \<in> set rs. i \<in> set (planned h r))"
  by (induction rs)
    (auto simp: has_moved_def planned_def split: sum.splits if_splits option.splits prod.splits)

lemma plan_step_move_loop_accepted:
  "plan_step_move_loop h nodes s cpv i rs = Inr (Some (h', moved)) \<Longrightarrow>
   \<exists>r \<in> set rs. \<exists>v. moved = [i] \<and> can_move_to h i r = Inr True
     \<and> percent_used_variance h nodes [(Some r, i)] [(initial_owner (item_of h i), i)] = Inr v
     \<and> v < cpv \<and> move h i r = Inr h'"
  by (induction rs) (auto split: sum.splits option.splits if_splits bool.splits)

lemma can_move_to_owner:
  "can_move_to h i r = Inr True \<Longrightarrow>
     \<exists>io u. initial_owner (item_of h i) = Some io \<and> io \<noteq> r
        \<and> planned_used (node_of h r) = Some u
        \<and> u + size_i (item_of h i) \<le> capacity (node_of h r)"
  by (auto simp: can_move_to_def item_can_move_to_def
      split: if_splits sum.splits option.splits bool.splits)

lemma plan_one_move_accepted:
  assumes "plan_one h nodes s plan_step_move = Inr (h', nodes', Some moved)"
  shows "\<exists>h1 cpv i r v io.
     resort h nodes = Inr (h1, nodes')
     \<and> percent_used_variance h1 nodes' [] [] = Inr cpv
     \<and> moved = [i] \<and> r \<in> set nodes'
     \<and> planned_owner (item_of h1 i) = None \<and> (\<exists>n \<in> set nodes'. i \<in> set (planned h1 n))
     \<and> initial_owner (item_of h1 i) = Some io \<and> io \<noteq> r
     \<and> current_owner (item_of h1 i) = Some io
     \<and> can_move_to h1 i r = Inr True
     \<and> percent_used_variance h1 nodes' [(Some r, i)] [(Some io, i)] = Inr v
     \<and> v < cpv \<and> move h1 i r = Inr h'"
proof -
  from plan_one_Some [OF assms] obtain h1 cpv i where
    r: "resort h nodes = Inr (h1, nodes')"
    and v: "percent_used_variance h1 nodes' [] [] = Inr cpv"
    and c: "i \<in> set (fst (iter_large_items s h1 nodes'))"
    and st: "plan_step_move h1 nodes' s cpv i = Inr (Some (h', moved))" by blast
  from c have cand: "planned_owner (item_of h1 i) = None" "\<exists>n \<in> set nodes'. i \<in> set (planned h1 n)"
    by (auto simp: iter_large_items_def dest: iter_large_from_items)
  from st obtain r' v' where r': "r' \<in> set nodes'" and m: "moved = [i]"
    and cm: "can_move_to h1 i r' = Inr True"
    and pv: "percent_used_variance h1 nodes' [(Some r', i)] [(initial_owner (item_of h1 i), i)] = Inr v'"
    and lt: "v' < cpv" and mv: "move h1 i r' = Inr h'"
    by (auto simp: plan_step_move_def dest!: plan_step_move_loop_accepted)
  from can_move_to_owner [OF cm] obtain io where io: "initial_owner (item_of h1 i) = Some io" "io \<noteq> r'"
    by blast
  have "current_owner (item_of h1 i) = Some io"
    using cand(1) io by (simp add: current_owner_def)
  with r v cand r' m cm pv lt mv io show ?thesis by auto
qed

subsection \<open>Invariants of the loop of \<^verbatim>\<open>plan\<close>\<close>

lemma plan_loop_invariant:
  assumes step: "\<And>h nodes h' nodes' m.
      P h nodes \<Longrightarrow> plan_one h nodes s step = Inr (h', nodes', m) \<Longrightarrow> P h' nodes'"
  shows "plan_loop k h nodes s step acc = Inr (h', nodes', moves) \<Longrightarrow> P h nodes \<Longrightarrow> P h' nodes'"
proof (induction k arbitrary: h nodes acc)
  case 0
  then show ?case by simp
next
  case (Suc k)
  show ?case
  proof (cases "plan_one h nodes s step")
    case (Inl e)
    with Suc.prems show ?thesis by simp
  next
    case (Inr res)
    obtain h1 nodes1 m where res: "res = (h1, nodes1, m)" by (cases res) auto
    from step [OF Suc.prems(2) Inr [unfolded res]] have p1: "P h1 nodes1" .
    show ?thesis
    proof (cases m)
      case None
      with Inr res Suc.prems p1 show ?thesis by simp
    next
      case (Some moved)
      show ?thesis
      proof (cases "moved = []")
        case True
        with Inr res Some Suc.prems p1 show ?thesis by simp
      next
        case False
        with Inr res Some Suc.prems(1)
        have "plan_loop k h1 nodes1 s step (acc @ moved) = Inr (h', nodes', moves)" by simp
        from Suc.IH [OF this p1] show ?thesis .
      qed
    qed
  qed
qed

lemma plan_one_swap_None:
  "plan_one h nodes s plan_step_swap = Inr (h', nodes', m) \<Longrightarrow> m = None"
proof (cases m)
  case None
  then show ?thesis by simp
next
  case (Some moved)
  assume "plan_one h nodes s plan_step_swap = Inr (h', nodes', m)"
  from plan_one_Some [OF this [unfolded Some]] show ?thesis
    by (simp add: plan_step_swap_raises)
qed

lemma set_planned_mset: "mset (planned h' n) = mset (planned h n) \<Longrightarrow> set (planned h' n) = set (planned h n)"
  by (metis set_mset_mset)

subsection \<open>Scenario S1, evaluated\<close>

lemma S1_returns: "\<not> isl (plan S1_heap [0, 1] S1_settings)"
  by code_simp

lemma S1_round_accepts: "accepted (plan_one S1_ready [0, 1] S1_settings (plan_step_of S1_settings)) = Inr (Some [0])"
  by code_simp


section \<open>The swap step\<close>

lemma S4_plan_raises: "returned (plan S4_heap [0, 1] S4_settings) = Inl TypeError"
  by code_simp

text \<open>
  C1. The specification has the first test of the swap step skip a candidate exactly when
  \<^verbatim>\<open>small_item.size >= large_item.size\<close>. The source compares \<^verbatim>\<open>small_item.store\<close> with
  \<^verbatim>\<open>large_item.store\<close>, an attribute no item has: for every candidate the first test
  raises AttributeError instead of deciding, whatever the sizes are. The test is moreover
  never reached, because \<^verbatim>\<open>plan_step_swap\<close> passes the arguments of
  \<^verbatim>\<open>iter_small_items\<close> in the wrong order and the small-item stream raises TypeError
  before it yields: the swap step raises on every input, and so does \<^verbatim>\<open>plan\<close> on
  scenario S4.
\<close>

theorem swap_first_test_raises:
  "swap_first_test h large_item small_item = Inl AttributeError
   \<and> plan_step_swap h nodes s current_pvariance large_item = Inl TypeError
   \<and> returned (plan S4_heap [0, 1] S4_settings) = Inl TypeError"
  using S4_plan_raises
  by (simp add: swap_first_test_def store_def plan_step_swap_raises)

section \<open>An empty node list\<close>

lemma plan_one_empty: "plan_one h [] s step = Inl StatisticsError"
  by (simp add: plan_one_def resort_def percent_used_variance_def pvariance_def)

text \<open>
  C10. With \<^verbatim>\<open>max_iters >= 1\<close>, \<^verbatim>\<open>plan\<close> on an empty node list raises: the first round
  asks \<^verbatim>\<open>statistics.pvariance\<close> for the variance of no data points, which is a
  StatisticsError. No move list is returned.
\<close>

theorem plan_empty_nodes_raises:
  assumes "1 \<le> max_iters s"
  shows "plan h [] s = Inl StatisticsError"
proof -
  from assms obtain k where k: "nat (max_iters s) = Suc k"
    by (cases "nat (max_iters s)") auto
  show ?thesis
    by (simp add: plan_def k plan_one_empty)
qed

theorem plan_empty_nodes_raises_witness:
  "1 \<le> max_iters S4_settings \<and> plan S4_heap [] S4_settings = Inl StatisticsError
   \<and> returned (plan S4_heap [] S4_settings) \<noteq> Inr []"
proof -
  have m: "1 \<le> max_iters S4_settings"
    by (simp add: S4_settings_def PlanSettings_def)
  from plan_empty_nodes_raises [OF m, of S4_heap] m show ?thesis
    by (simp add: returned_def)
qed

section \<open>The iteration bound\<close>

lemma plan_loop_rounds_le: "plan_loop_rounds k h nodes s step \<le> k"
  by (induction k arbitrary: h nodes) (auto split: sum.splits option.splits)

text \<open>
  C9. Every function of the model is defined by structural recursion (on a list or on the
  number of iterations left), so \<^verbatim>\<open>plan\<close> terminates on every input, with a list or with
  an exception. Its loop runs over \<^verbatim>\<open>range(max_iters)\<close>: it executes at most \<open>max_iters\<close>
  rounds, and a returned list has at most \<open>max_iters\<close> items in move mode and at most
  \<open>2 * max_iters\<close> in swap mode (\<open>nat\<close> reads a negative \<open>max_iters\<close> as no round at
  all, as \<^verbatim>\<open>range\<close> does).
\<close>

theorem iteration_bound:
  "plan_rounds h nodes s \<le> nat (max_iters s)
   \<and> (returned (plan h nodes s) = Inr moves \<longrightarrow>
        length moves \<le> (if swap s then 2 * nat (max_iters s) else nat (max_iters s)))"
proof
  show "plan_rounds h nodes s \<le> nat (max_iters s)"
    by (simp add: plan_rounds_def plan_loop_rounds_le split: sum.splits)
next
  show "returned (plan h nodes s) = Inr moves \<longrightarrow>
        length moves \<le> (if swap s then 2 * nat (max_iters s) else nat (max_iters s))"
  proof
    assume "returned (plan h nodes s) = Inr moves"
    then obtain h0 h' nodes' where
      "plan_loop (nat (max_iters s)) h0 nodes s
         (if swap s then plan_step_swap else plan_step_move) [] = Inr (h', nodes', moves)"
      by (auto simp: returned_def plan_def split: sum.splits)
    from plan_loop_bound [OF plan_step_ok this]
    show "length moves \<le> (if swap s then 2 * nat (max_iters s) else nat (max_iters s))"
      by (simp split: if_splits)
  qed
qed

lemma S1_plan: "returned (plan S1_heap [0, 1] S1_settings) = Inr [0]"
  by code_simp

lemma S1_rounds: "plan_rounds S1_heap [0, 1] S1_settings = 2"
  by code_simp

theorem iteration_bound_witness:
  "returned (plan S1_heap [0, 1] S1_settings) = Inr [0]
   \<and> plan_rounds S1_heap [0, 1] S1_settings = 2
   \<and> max_iters S1_settings = 5 \<and> \<not> swap S1_settings
   \<and> length [0 :: item_ref] \<le> nat (max_iters S1_settings)
   \<and> plan_rounds S1_heap [0, 1] S1_settings \<le> nat (max_iters S1_settings)"
  using iteration_bound [of S1_heap "[0, 1]" S1_settings "[0]"] S1_plan S1_rounds
  by (simp add: S1_settings_def PlanSettings_def)

section \<open>Leader pinning\<close>

lemma plan_one_leaders:
  assumes "step_ok c step" and "plan_one h nodes s step = Inr (h', nodes', m)"
  shows "(\<forall>j. is_leader (item_of h' j) = is_leader (item_of h j))
     \<and> (\<forall>moved. m = Some moved \<longrightarrow> moved \<noteq> [] \<and> (\<forall>j \<in> set moved. \<not> is_leader (item_of h j)))"
proof (cases m)
  case None
  with assms(2) have "resort h nodes = Inr (h', nodes')" by (simp add: plan_one_None)
  from resort_effect(2) [OF this] None show ?thesis by simp
next
  case (Some moved)
  from plan_one_Some [OF assms(2) [unfolded Some]] obtain h1 cpv i where
    r: "resort h nodes = Inr (h1, nodes')"
    and st: "step h1 nodes' s cpv i = Inr (Some (h', moved))" by blast
  from assms(1) st have "moved \<noteq> []"
    "\<forall>j. is_leader (item_of h' j) = is_leader (item_of h1 j)"
    "\<forall>j\<in>set moved. \<not> is_leader (item_of h1 j)"
    unfolding step_ok_def by blast+
  with resort_effect(2) [OF r] Some show ?thesis by simp
qed

lemma plan_loop_leaders:
  assumes "step_ok c step"
  shows "plan_loop k h nodes s step acc = Inr (h', nodes', moves) \<Longrightarrow>
     \<forall>i \<in> set acc. \<not> is_leader (item_of h i) \<Longrightarrow>
     (\<forall>i \<in> set moves. \<not> is_leader (item_of h i))
     \<and> (\<forall>j. is_leader (item_of h' j) = is_leader (item_of h j))"
proof (induction k arbitrary: h nodes acc)
  case 0
  then show ?case by simp
next
  case (Suc k)
  show ?case
  proof (cases "plan_one h nodes s step")
    case (Inl e)
    with Suc.prems show ?thesis by simp
  next
    case (Inr res)
    obtain h1 nodes1 m where res: "res = (h1, nodes1, m)" by (cases res) auto
    note one = plan_one_leaders [OF assms Inr [unfolded res]]
    show ?thesis
    proof (cases m)
      case None
      with Inr res Suc.prems one show ?thesis by simp
    next
      case (Some moved)
      with one have ne: "moved \<noteq> []" and nl: "\<forall>j \<in> set moved. \<not> is_leader (item_of h j)"
        and same: "\<forall>j. is_leader (item_of h1 j) = is_leader (item_of h j)" by simp_all
      from ne Inr res Some Suc.prems(1)
      have rec: "plan_loop k h1 nodes1 s step (acc @ moved) = Inr (h', nodes', moves)" by simp
      from Suc.prems(2) nl same have "\<forall>i \<in> set (acc @ moved). \<not> is_leader (item_of h1 i)"
        by auto
      from Suc.IH [OF rec this] same show ?thesis by simp
    qed
  qed
qed

lemma plan_leaders:
  assumes "plan h nodes s = Inr (h', nodes', moves)"
  shows "\<forall>i \<in> set moves. \<not> is_leader (item_of h i)"
proof -
  from assms obtain h0 where i: "plan_init h nodes = Inr h0"
    and l: "plan_loop (nat (max_iters s)) h0 nodes s
         (if swap s then plan_step_swap else plan_step_move) [] = Inr (h', nodes', moves)"
    by (auto simp: plan_def split: sum.splits)
  from plan_loop_leaders [OF plan_step_ok l] have "\<forall>i \<in> set moves. \<not> is_leader (item_of h0 i)"
    by simp
  with plan_init_is_leader [OF i] show ?thesis by simp
qed

lemma plan_loop_no_move:
  "plan_one h nodes s step = Inr (h1, nodes1, None) \<Longrightarrow>
     returned (plan_loop k h nodes s step acc) = Inr acc"
  by (cases k) (simp_all add: returned_def)

lemma S2_facts:
  "capacity (node_of S2_heap 0) = 100" "capacity (node_of S2_heap (Suc 0)) = 100"
  "initial_items (node_of S2_heap 0) = [0]" "initial_items (node_of S2_heap (Suc 0)) = []"
  "is_leader (item_of S2_heap 0)"
  by (simp_all add: S2_heap_def heap_of_def Disk_def PartitionReplica_def)

lemma S2_init: "\<not> isl (plan_init S2_heap [0, 1])"
  by code_simp

lemma S2_no_move: "\<not> swap s \<Longrightarrow> returned (plan S2_heap [0, 1] s) = Inr []"
proof -
  assume mv: "\<not> swap s"
  from S2_init obtain h0 where i: "plan_init S2_heap [0, 1] = Inr h0"
    by (cases "plan_init S2_heap [0, 1]") auto
  note e = plan_init_effect [OF i]
  from e have st: "static S2_heap h0" by blast
  have pl: "planned h0 0 = [0]" "planned h0 (Suc 0) = []"
    and pi: "planned_items (node_of h0 0) = Some [0]" "planned_items (node_of h0 (Suc 0)) = Some []"
    using e by (simp_all add: planned_def S2_facts)
  have cap: "capacity (node_of h0 0) = 100" "capacity (node_of h0 (Suc 0)) = 100"
    and ld: "is_leader (item_of h0 0)"
    using st by (simp_all add: static_def S2_facts)
  have io: "initial_owner (item_of h0 0) = Some 0"
    using e by (simp add: S2_facts)
  have "\<exists>h1 nodes1. plan_one h0 [0, 1] s plan_step_move = Inr (h1, nodes1, None)
     \<and> resort h0 [0, 1] = Inr (h1, nodes1)"
    by (rule plan_one_no_move) (simp_all add: pl pi cap ld io)
  then obtain h1 nodes1 where "plan_one h0 [0, 1] s plan_step_move = Inr (h1, nodes1, None)"
    by blast
  from plan_loop_no_move [OF this] i mv show ?thesis
    by (simp add: plan_def)
qed

lemma leader_heap_plan: "returned (plan leader_heap [0, 1] S1_settings) = Inr [1, 2]"
  by code_simp

text \<open>
  C7. Leader pinning: whenever \<^verbatim>\<open>plan\<close> returns a list of moves, no item of the list is a
  leader replica (\<^verbatim>\<open>is_leader\<close> is never assigned, so it is the same before and after).
  On scenario S2, a single leader of size 50 on disk 0 and an empty disk 1, \<^verbatim>\<open>plan\<close>
  returns the empty list for every \<^verbatim>\<open>max_iters\<close> and every threshold in move mode.
\<close>

theorem leader_pinning:
  "(returned (plan h nodes s) = Inr moves \<longrightarrow> (\<forall>i \<in> set moves. \<not> is_leader (item_of h i)))
   \<and> (\<not> swap s \<longrightarrow> returned (plan S2_heap [0, 1] s) = Inr [])"
proof (intro conjI impI)
  assume "returned (plan h nodes s) = Inr moves"
  then obtain h' nodes' where "plan h nodes s = Inr (h', nodes', moves)"
    by (auto simp: returned_def split: sum.splits)
  then show "\<forall>i \<in> set moves. \<not> is_leader (item_of h i)" by (rule plan_leaders)
next
  assume "\<not> swap s"
  then show "returned (plan S2_heap [0, 1] s) = Inr []" by (rule S2_no_move)
qed

theorem leader_pinning_witness:
  "returned (plan leader_heap [0, 1] S1_settings) = Inr [1, 2]
   \<and> is_leader (item_of leader_heap 0)
   \<and> \<not> is_leader (item_of leader_heap 1) \<and> \<not> is_leader (item_of leader_heap 2)
   \<and> \<not> swap S1_settings
   \<and> returned (plan S2_heap [0, 1] S1_settings) = Inr []"
  using leader_pinning [of leader_heap "[0, 1]" S1_settings "[1, 2]"] leader_heap_plan
  by (simp add: S1_settings_def PlanSettings_def leader_heap_def heap_of_def PartitionReplica_def)

section \<open>The reassignment document\<close>

lemma parallel_update_record:
  assumes "parallel na"
    and "\<And>r. length (replicas_a (f r)) = length (replicas_a r)
           \<and> length (log_dirs_a (f r)) = length (log_dirs_a r)"
  shows "parallel (update_record na key f)"
  using assms by (auto simp: parallel_def update_record_def split: if_splits)

lemma parallel_write_replicas_var:
  assumes "write_replicas_var na pos v = Inr na'" and "parallel na" and "na \<noteq> []"
  shows "parallel na' \<and> na' \<noteq> []"
proof -
  obtain k r where l: "last na = (k, r)" by (cases "last na") auto
  from assms(3) have mem: "(k, r) \<in> set na" using l by (metis last_in_set)
  from assms(1) l have na': "na' = butlast na @ [(k, r\<lparr>replicas_a := (replicas_a r)[pos := v]\<rparr>)]"
    by (auto simp: write_replicas_var_def split: if_splits)
  have "set (butlast na) \<subseteq> set na" by (auto dest: in_set_butlastD)
  with assms(2) mem show ?thesis
    by (auto simp: parallel_def na')
qed

lemma update_record_empty [simp]: "(update_record na key f = []) = (na = [])"
  by (simp add: update_record_def)

lemma gen_step_parallel:
  assumes "gen_step rng parts h (na, k) i = Inr (na', k')" and "parallel na"
  shows "parallel na'"
proof (cases "map_of na (id_name_of (item_of h i))")
  case None
  with assms(1) obtain rec where na': "na' = na @ [(id_name_of (item_of h i), rec)]"
    and len: "length (replicas_a rec) = length (log_dirs_a rec)"
    by (auto simp: gen_step_def Let_def split: option.splits if_splits sum.splits)
  with assms(2) show ?thesis
    by (auto simp: parallel_def)
next
  case (Some r)
  then have ne: "na \<noteq> []" by auto
  from assms(1) Some obtain po pos na2 where
    po: "planned_owner (item_of h i) = Some po"
    and w: "write_replicas_var
              (update_record na (id_name_of (item_of h i))
                 (\<lambda>r. r\<lparr>replicas_a := (replicas_a r)
                    [replica_id (item_of h i) := id_b (broker_of h (broker (node_of h po)))]\<rparr>))
              pos (replicas_a r ! replica_id (item_of h i)) = Inr na2"
    and na': "na' = update_record na2 (id_name_of (item_of h i))
                 (\<lambda>r. r\<lparr>log_dirs_a := (log_dirs_a r)
                    [replica_id (item_of h i) := rstrip_slash (mount_point (node_of h po))]\<rparr>)"
    by (auto simp: gen_step_def Let_def split: option.splits if_splits sum.splits)
  have "parallel (update_record na (id_name_of (item_of h i))
                 (\<lambda>r. r\<lparr>replicas_a := (replicas_a r)
                    [replica_id (item_of h i) := id_b (broker_of h (broker (node_of h po)))]\<rparr>))"
    using assms(2) by (rule parallel_update_record) simp
  from parallel_write_replicas_var [OF w this] ne have "parallel na2" by simp
  then show ?thesis unfolding na' by (rule parallel_update_record) simp
qed

lemma gen_loop_parallel:
  "gen_loop rng parts h (na, k) is = Inr (na', k') \<Longrightarrow> parallel na \<Longrightarrow> parallel na'"
proof (induction "is" arbitrary: na k)
  case Nil
  then show ?case by simp
next
  case (Cons i "is")
  from Cons.prems(1) obtain na1 k1 where s: "gen_step rng parts h (na, k) i = Inr (na1, k1)"
    and l: "gen_loop rng parts h (na1, k1) is = Inr (na', k')"
    by (auto split: sum.splits)
  from Cons.IH [OF l gen_step_parallel [OF s Cons.prems(2)]] show ?case .
qed

lemma len_card_distinct: "(length xs = card (set xs)) = distinct xs"
  by (metis card_distinct distinct_card)

lemma json_items_valid:
  "parallel na \<Longrightarrow> j \<in> set (json_items na) \<Longrightarrow>
     length (replicas_j j) = length (log_dirs_j j) \<and> distinct (replicas_j j)"
  by (auto simp: json_items_def parallel_def len_card_distinct)

lemma json_items_filter:
  "map replicas_j (json_items na) = filter distinct (map (\<lambda>(k, r). replicas_a r) na)"
  by (induction na) (auto simp: json_items_def len_card_distinct)

text \<open>
  C5. Document validity: every partition record of the document that
  \<^verbatim>\<open>gen_reassignment_file\<close> returns has as many log dirs as replicas and no broker id twice
  among its replicas; the emitted replica lists are exactly the duplicate-free ones among
  the records of \<^verbatim>\<open>new_assignments\<close> after all updates, in order, so a record that still
  has a duplicate is dropped.
\<close>

theorem document_validity:
  assumes "gen_reassignment_file rng parts h moved_replicas = Inr doc"
  shows "(\<forall>j \<in> set (partitions doc).
            length (replicas_j j) = length (log_dirs_j j) \<and> distinct (replicas_j j))
     \<and> (\<exists>na k. gen_loop rng parts h ([], 0) moved_replicas = Inr (na, k)
            \<and> map replicas_j (partitions doc) = filter distinct (map (\<lambda>(key, r). replicas_a r) na))"
proof -
  from assms obtain na k where l: "gen_loop rng parts h ([], 0) moved_replicas = Inr (na, k)"
    and d: "doc = \<lparr> version = 1, partitions = json_items na \<rparr>"
    by (auto simp: gen_reassignment_file_def split: sum.splits)
  have "parallel []" by (simp add: parallel_def)
  from gen_loop_parallel [OF l this] have "parallel na" .
  with l d show ?thesis
    by (auto simp: json_items_valid json_items_filter)
qed

lemma doc_S5_table:
  "replica_table (gen_loop draw0 doc_partitions doc_heap ([], 0) [0, 2, 3])
     = Inr [(''T-0'', [5, 5, 3]), (''U-0'', [1, 2])]"
  by code_simp

lemma doc_S5_file:
  "gen_reassignment_file draw0 doc_partitions doc_heap [0, 2, 3]
     = Inr \<lparr> version = 1,
             partitions = [\<lparr> topic_j = ''U'', partition_j = 0, replicas_j = [1, 2],
                             log_dirs_j = [''any'', ''/kafka/1''] \<rparr>] \<rparr>"
  by code_simp

theorem document_validity_witness:
  "gen_reassignment_file draw0 doc_partitions doc_heap [0, 2, 3]
     = Inr \<lparr> version = 1,
             partitions = [\<lparr> topic_j = ''U'', partition_j = 0, replicas_j = [1, 2],
                             log_dirs_j = [''any'', ''/kafka/1''] \<rparr>] \<rparr>
   \<and> replica_table (gen_loop draw0 doc_partitions doc_heap ([], 0) [0, 2, 3])
       = Inr [(''T-0'', [5, 5, 3]), (''U-0'', [1, 2])]
   \<and> length [1, 2 :: int] = length [''any'', ''/kafka/1''] \<and> distinct [1, 2 :: int]
   \<and> filter distinct [[5, 5, 3], [1, 2 :: int]] = [[1, 2]]"
  using document_validity [OF doc_S5_file] doc_S5_file doc_S5_table
  by simp

lemma doc_alias_before:
  "replica_table (gen_loop draw0 doc_partitions doc_heap ([], 0) [0, 2])
     = Inr [(''T-0'', [5, 1, 3]), (''U-0'', [7, 2])]"
  by code_simp

lemma doc_alias_after:
  "replica_table (gen_loop draw0 doc_partitions doc_heap ([], 0) [0, 2, 1])
     = Inr [(''T-0'', [5, 6, 3]), (''U-0'', [1, 2])]"
  by code_simp

lemma doc_alias_raises:
  "replica_table (gen_loop draw1 doc_partitions doc_heap ([], 0) [0, 2, 1]) = Inl IndexError"
  by code_simp

text \<open>
  C6. The specification has a later move of a partition that already has a record apply the
  replica substitution, the repositioning of the displaced broker and the log-dir update
  to that record, leaving every other record alone. In the source the repositioning is the
  assignment \<^verbatim>\<open>replicas[old_replica_pos] = old_replica\<close>, and \<^verbatim>\<open>replicas\<close> is still the list
  of the record created last. With the moves of replica 0 of \<open>T-0\<close>, replica 1 of
  \<open>U-0\<close> and replica 1 of \<open>T-0\<close>, in this order, the third move substitutes broker 6 into
  the record of \<open>T-0\<close>, which becomes \<open>[5, 6, 3]\<close>, but writes the displaced broker 1 into
  the record of \<open>U-0\<close>, which changes from \<open>[7, 2]\<close> to \<open>[1, 2]\<close>; with another random
  draw the position lies outside the shorter list and the function raises IndexError.
\<close>

theorem later_move_writes_other_record:
  "replica_table (gen_loop draw0 doc_partitions doc_heap ([], 0) [0, 2])
     = Inr [(''T-0'', [5, 1, 3]), (''U-0'', [7, 2])]
   \<and> replica_table (gen_loop draw0 doc_partitions doc_heap ([], 0) [0, 2, 1])
       = Inr [(''T-0'', [5, 6, 3]), (''U-0'', [1, 2])]
   \<and> replica_table (gen_loop draw1 doc_partitions doc_heap ([], 0) [0, 2, 1]) = Inl IndexError"
  using doc_alias_before doc_alias_after doc_alias_raises by simp


section \<open>Conservation\<close>

lemma resort_conserves:
  assumes "resort h nodes = Inr (h1, nodes1)"
  shows "set nodes1 = set nodes" and "held h1 nodes1 = held h nodes"
    and "owners_known h nodes \<Longrightarrow> owners_known h1 nodes1"
proof -
  note e = resort_effect [OF assms]
  from e(3) show sn: "set nodes1 = set nodes" by (metis set_mset_mset)
  show "held h1 nodes1 = held h nodes"
    by (simp add: held_def sn e(4))
  assume "owners_known h nodes"
  then show "owners_known h1 nodes1"
    by (simp add: owners_known_def sn e(2) set_planned_mset [OF e(4)])
qed

lemma move_conserves:
  assumes mv: "move h i r = Inr h'" and co: "current_owner (item_of h i) = Some io"
    and io: "io \<in> set nodes" and r: "r \<in> set nodes"
  shows "held h' nodes = held h nodes"
    and "owners_known h nodes \<Longrightarrow> owners_known h' nodes"
proof -
  note ms = move_mset [OF mv co]
  have "(\<Sum>n \<in> set nodes. mset (planned h' n) + (if n = io then {#i#} else {#}))
      = (\<Sum>n \<in> set nodes. mset (planned h n) + (if n = r then {#i#} else {#}))"
    by (simp only: ms)
  then have "held h' nodes + (\<Sum>n \<in> set nodes. if n = io then {#i#} else {#})
      = held h nodes + (\<Sum>n \<in> set nodes. if n = r then {#i#} else {#})"
    by (simp add: held_def sum.distrib)
  with io r show "held h' nodes = held h nodes"
    by (simp add: sum.delta)
  assume ok: "owners_known h nodes"
  from move_effect [OF mv] have po: "planned_owner (item_of h' i) = Some r"
    and oth: "\<forall>j. j \<noteq> i \<longrightarrow> item_of h' j = item_of h j"
    by auto
  show "owners_known h' nodes"
    unfolding owners_known_def
  proof (intro ballI impI)
    fix n j assume n: "n \<in> set nodes" and j: "j \<in> set (planned h' n)"
      and none: "planned_owner (item_of h' j) = None"
    from none po have ji: "j \<noteq> i" by auto
    with oth have same: "item_of h' j = item_of h j" by simp
    from j have "j \<in># mset (planned h' n) + (if n = io then {#i#} else {#})" by simp
    then have "j \<in># mset (planned h n) + (if n = r then {#i#} else {#})" by (simp only: ms)
    with ji have "j \<in> set (planned h n)" by (auto split: if_splits)
    with ok n none same show "\<exists>m \<in> set nodes. initial_owner (item_of h' j) = Some m"
      by (auto simp: owners_known_def)
  qed
qed

lemma plan_one_conserves:
  assumes "plan_one h nodes s (plan_step_of s) = Inr (h', nodes', m)"
    and "owners_known h nodes"
  shows "owners_known h' nodes' \<and> held h' nodes' = held h nodes \<and> set nodes' = set nodes"
proof (cases m)
  case None
  with assms(1) have "resort h nodes = Inr (h', nodes')" by (simp add: plan_one_None)
  from resort_conserves [OF this] assms(2) show ?thesis by simp
next
  case (Some moved)
  have mode: "plan_step_of s = plan_step_move"
  proof (cases "swap s")
    case True
    with assms(1) Some plan_one_swap_None [of h nodes s h' nodes' m] show ?thesis
      by (simp add: plan_step_of_def)
  next
    case False
    then show ?thesis by (simp add: plan_step_of_def)
  qed
  from plan_one_move_accepted [OF assms(1) [unfolded Some mode]]
  obtain h1 i r io where rs: "resort h nodes = Inr (h1, nodes')"
    and r: "r \<in> set nodes'" and po: "planned_owner (item_of h1 i) = None"
    and pl: "\<exists>n \<in> set nodes'. i \<in> set (planned h1 n)"
    and io: "initial_owner (item_of h1 i) = Some io"
    and co: "current_owner (item_of h1 i) = Some io"
    and mv: "move h1 i r = Inr h'" by blast
  note c = resort_conserves [OF rs]
  from c(3) assms(2) have ok1: "owners_known h1 nodes'" by simp
  with pl po io have "io \<in> set nodes'" by (fastforce simp: owners_known_def)
  from move_conserves [OF mv co this r] ok1 c show ?thesis by simp
qed

lemma plan_init_conserves:
  assumes "plan_init h nodes = Inr h0"
  shows "owners_known h0 nodes" and "held h0 nodes = initially_held h nodes"
proof -
  note e = plan_init_effect [OF assms]
  from e have pl: "planned h0 n = initial_items (node_of h n)" if "n \<in> set nodes" for n
    using that by (simp add: planned_def)
  then show "held h0 nodes = initially_held h nodes"
    by (simp add: held_def initially_held_def)
  from e pl show "owners_known h0 nodes"
    by (auto simp: owners_known_def)
qed

lemma plan_loop_conserves:
  assumes "plan_loop k h nodes s (plan_step_of s) acc = Inr (h', nodes', moves)"
    and "owners_known h nodes"
  shows "held h' nodes' = held h nodes \<and> set nodes' = set nodes"
proof -
  define P where "P = (\<lambda>g ns. owners_known g ns \<and> held g ns = held h nodes \<and> set ns = set nodes)"
  have step: "P g' ns'"
    if "P g ns" and "plan_one g ns s (plan_step_of s) = Inr (g', ns', m)" for g ns g' ns' m
    using that plan_one_conserves [of g ns s g' ns' m] by (simp add: P_def)
  have "P h nodes" using assms(2) by (simp add: P_def)
  from plan_loop_invariant [of P s "plan_step_of s" k h nodes acc h' nodes' moves,
      OF step assms(1) this]
  show ?thesis by (simp add: P_def)
qed

text \<open>
  C2. Conservation: when \<^verbatim>\<open>plan\<close> returns, the multiset of items held across the nodes'
  \<^verbatim>\<open>planned_items\<close> is the multiset held across their \<^verbatim>\<open>initial_items\<close> at the call, and
  the node list holds the same nodes. As this holds for every \<^verbatim>\<open>max_iters\<close>, it holds
  after every round. A call of \<^verbatim>\<open>move\<close> whose destination is not the item's current owner
  (in \<^verbatim>\<open>plan\<close> it never is) removes the item from its current owner's list, where it was,
  appends it to the destination's list and leaves every other node's list alone.
\<close>

theorem conservation:
  "(plan h nodes s = Inr (h', nodes', moves) \<longrightarrow>
      held h' nodes' = initially_held h nodes \<and> set nodes' = set nodes)
   \<and> (move g i dest = Inr g' \<and> current_owner (item_of g i) = Some src \<and> src \<noteq> dest \<longrightarrow>
        i \<in> set (planned g src)
        \<and> planned g' src = remove1 i (planned g src)
        \<and> planned g' dest = planned g dest @ [i]
        \<and> (\<forall>n. n \<noteq> src \<and> n \<noteq> dest \<longrightarrow> planned g' n = planned g n))"
proof (rule conjI)
  show "plan h nodes s = Inr (h', nodes', moves) \<longrightarrow>
      held h' nodes' = initially_held h nodes \<and> set nodes' = set nodes"
  proof (rule impI)
    assume "plan h nodes s = Inr (h', nodes', moves)"
    then obtain h0 where i: "plan_init h nodes = Inr h0"
      and l: "plan_loop (nat (max_iters s)) h0 nodes s (plan_step_of s) [] = Inr (h', nodes', moves)"
      by (auto simp: plan_def plan_step_of_def split: sum.splits)
    note c = plan_init_conserves [OF i]
    from plan_loop_conserves [OF l c(1)]
    have "held h' nodes' = held h0 nodes \<and> set nodes' = set nodes" .
    with c show "held h' nodes' = initially_held h nodes \<and> set nodes' = set nodes" by simp
  qed
next
  show "move g i dest = Inr g' \<and> current_owner (item_of g i) = Some src \<and> src \<noteq> dest \<longrightarrow>
        i \<in> set (planned g src)
        \<and> planned g' src = remove1 i (planned g src)
        \<and> planned g' dest = planned g dest @ [i]
        \<and> (\<forall>n. n \<noteq> src \<and> n \<noteq> dest \<longrightarrow> planned g' n = planned g n)"
  proof (rule impI)
    assume a: "move g i dest = Inr g' \<and> current_owner (item_of g i) = Some src \<and> src \<noteq> dest"
    from move_effect [of g i dest g'] a
    show "i \<in> set (planned g src)
        \<and> planned g' src = remove1 i (planned g src)
        \<and> planned g' dest = planned g dest @ [i]
        \<and> (\<forall>n. n \<noteq> src \<and> n \<noteq> dest \<longrightarrow> planned g' n = planned g n)"
      by (auto simp: planned_def)
  qed
qed

lemma S1_initially_held: "initially_held S1_heap [0, 1] = {#0, 1, 2#}"
  by (simp add: initially_held_def S1_heap_def heap_of_def Disk_def)

lemma S1_move: "\<not> isl (move S1_ready 0 1)"
  by code_simp

lemma S1_ready_facts:
  "current_owner (item_of S1_ready 0) = Some 0"
  "planned S1_ready 0 = [0, 1, 2]" "planned S1_ready 1 = []"
  by code_simp+

theorem conservation_witness:
  "\<exists>h' nodes' moves g'.
     plan S1_heap [0, 1] S1_settings = Inr (h', nodes', moves)
     \<and> held h' nodes' = {#0, 1, 2#} \<and> initially_held S1_heap [0, 1] = {#0, 1, 2#}
     \<and> move S1_ready 0 1 = Inr g' \<and> current_owner (item_of S1_ready 0) = Some 0
     \<and> planned S1_ready 0 = [0, 1, 2] \<and> planned S1_ready 1 = []
     \<and> planned g' 0 = [1, 2] \<and> planned g' 1 = [0]"
proof -
  from S1_returns obtain h' nodes' moves where
    p: "plan S1_heap [0, 1] S1_settings = Inr (h', nodes', moves)"
    by (cases "plan S1_heap [0, 1] S1_settings") auto
  from S1_move obtain g' where m: "move S1_ready 0 1 = Inr g'"
    by (cases "move S1_ready 0 1") auto
  from conservation [of S1_heap "[0, 1]" S1_settings h' nodes' moves S1_ready 0 1 g' 0]
    p m S1_ready_facts S1_initially_held
  show ?thesis by auto
qed

section \<open>Capacity\<close>

lemma resort_capacity:
  assumes "resort h nodes = Inr (h1, nodes1)"
  shows "within_capacity h nodes \<Longrightarrow> within_capacity h1 nodes1"
    and "sizes_nonneg h nodes \<Longrightarrow> sizes_nonneg h1 nodes1"
proof -
  note e = resort_effect [OF assms]
  from e(3) have sn: "set nodes1 = set nodes" by (metis set_mset_mset)
  have sz: "sizes h1 (planned h1 n) = sizes h (planned h n)" for n
    using sizes_static [OF e(1)] sizes_mset [OF e(4)] by simp
  have cap: "capacity (node_of h1 n) = capacity (node_of h n)" for n
    using e(1) by (simp add: static_def)
  show "within_capacity h nodes \<Longrightarrow> within_capacity h1 nodes1"
    by (simp add: within_capacity_def sn sz cap)
  show "sizes_nonneg h nodes \<Longrightarrow> sizes_nonneg h1 nodes1"
    by (simp add: sizes_nonneg_def sn e(2) set_planned_mset [OF e(4)])
qed

text \<open>The destination of an accepted move is within its capacity.\<close>

lemma accepted_destination:
  assumes rs: "resort h nodes = Inr (h1, nodes1)" and r: "r \<in> set nodes1"
    and cm: "can_move_to h1 i r = Inr True"
    and co: "current_owner (item_of h1 i) = Some io" and ne: "io \<noteq> r"
    and mv: "move h1 i r = Inr h'"
  shows "sizes h' (planned h' r) \<le> capacity (node_of h' r)"
proof -
  note e = resort_effect [OF rs]
  from e(3) r have "r \<in> set nodes" by (metis set_mset_mset)
  with e(5) have "sorted_node h h1 r" by blast
  then have pu: "planned_used (node_of h1 r) = Some (sizes h1 (planned h1 r))"
    using sizes_static [OF e(1)] by (simp add: sorted_node_def)
  from can_move_to_owner [OF cm] pu
  have le: "sizes h1 (planned h1 r) + size_i (item_of h1 i) \<le> capacity (node_of h1 r)" by auto
  from move_effect [OF mv] have "static h1 h'" by blast
  then have cap: "capacity (node_of h' r) = capacity (node_of h1 r)" by (simp add: static_def)
  from move_sizes [OF mv co, of r] ne le cap show ?thesis by simp
qed

lemma plan_one_capacity:
  assumes one: "plan_one h nodes s (plan_step_of s) = Inr (h', nodes', m)"
    and wc: "within_capacity h nodes" and nn: "sizes_nonneg h nodes"
  shows "within_capacity h' nodes' \<and> sizes_nonneg h' nodes'"
proof (cases m)
  case None
  with one have "resort h nodes = Inr (h', nodes')" by (simp add: plan_one_None)
  from resort_capacity [OF this] wc nn show ?thesis by simp
next
  case (Some moved)
  have mode: "plan_step_of s = plan_step_move"
  proof (cases "swap s")
    case True
    with one Some plan_one_swap_None [of h nodes s h' nodes' m] show ?thesis
      by (simp add: plan_step_of_def)
  next
    case False
    then show ?thesis by (simp add: plan_step_of_def)
  qed
  from plan_one_move_accepted [OF one [unfolded Some mode]]
  obtain h1 i r io where rs: "resort h nodes = Inr (h1, nodes')"
    and r: "r \<in> set nodes'"
    and pl: "\<exists>n \<in> set nodes'. i \<in> set (planned h1 n)"
    and ne: "io \<noteq> r"
    and co: "current_owner (item_of h1 i) = Some io"
    and cm: "can_move_to h1 i r = Inr True"
    and mv: "move h1 i r = Inr h'" by blast
  from resort_capacity [OF rs] wc nn
  have wc1: "within_capacity h1 nodes'" and nn1: "sizes_nonneg h1 nodes'" by simp_all
  from pl nn1 have pos: "0 \<le> size_i (item_of h1 i)" by (auto simp: sizes_nonneg_def)
  from move_effect [OF mv] have st: "static h1 h'" by blast
  then have cap: "capacity (node_of h' n) = capacity (node_of h1 n)" for n
    by (simp add: static_def)
  from st have sz: "size_i (item_of h' j) = size_i (item_of h1 j)" for j
    by (simp add: static_def)
  note dest = accepted_destination [OF rs r cm co ne mv]
  have "within_capacity h' nodes'"
    unfolding within_capacity_def
  proof
    fix n assume n: "n \<in> set nodes'"
    show "sizes h' (planned h' n) \<le> capacity (node_of h' n)"
    proof (cases "n = r")
      case True
      with dest show ?thesis by simp
    next
      case False
      from wc1 n have "sizes h1 (planned h1 n) \<le> capacity (node_of h1 n)"
        by (simp add: within_capacity_def)
      with move_sizes [OF mv co, of n] False pos cap show ?thesis
        by (simp split: if_splits)
    qed
  qed
  moreover have "sizes_nonneg h' nodes'"
    unfolding sizes_nonneg_def
  proof (intro ballI)
    fix n j assume n: "n \<in> set nodes'" and j: "j \<in> set (planned h' n)"
    from j have "j \<in># mset (planned h' n) + (if n = io then {#i#} else {#})" by simp
    then have "j \<in># mset (planned h1 n) + (if n = r then {#i#} else {#})"
      by (simp only: move_mset [OF mv co])
    then have "j = i \<or> j \<in> set (planned h1 n)" by (auto split: if_splits)
    with pos nn1 n show "0 \<le> size_i (item_of h' j)"
      by (auto simp: sizes_nonneg_def sz)
  qed
  ultimately show ?thesis by simp
qed

lemma plan_loop_capacity:
  assumes "plan_loop k h nodes s (plan_step_of s) acc = Inr (h', nodes', moves)"
    and "within_capacity h nodes" and "sizes_nonneg h nodes"
  shows "within_capacity h' nodes'"
proof -
  define P where "P = (\<lambda>g ns. within_capacity g ns \<and> sizes_nonneg g ns)"
  have step: "P g' ns'"
    if "P g ns" and "plan_one g ns s (plan_step_of s) = Inr (g', ns', m)" for g ns g' ns' m
    using that plan_one_capacity [of g ns s g' ns' m] by (simp add: P_def)
  have "P h nodes" using assms(2,3) by (simp add: P_def)
  from plan_loop_invariant [of P s "plan_step_of s" k h nodes acc h' nodes' moves,
      OF step assms(1) this]
  show ?thesis by (simp add: P_def)
qed

lemma plan_capacity:
  assumes "\<forall>n \<in> set nodes. sizes h (initial_items (node_of h n)) \<le> capacity (node_of h n)"
    and "\<forall>n \<in> set nodes. \<forall>i \<in> set (initial_items (node_of h n)). 0 \<le> size_i (item_of h i)"
    and "plan h nodes s = Inr (h', nodes', moves)"
  shows "\<forall>n \<in> set nodes. sizes h' (planned h' n) \<le> capacity (node_of h' n)"
proof -
  from assms(3) obtain h0 where i: "plan_init h nodes = Inr h0"
    and l: "plan_loop (nat (max_iters s)) h0 nodes s (plan_step_of s) [] = Inr (h', nodes', moves)"
    by (auto simp: plan_def plan_step_of_def split: sum.splits)
  note e = plan_init_effect [OF i]
  from e have st: "static h h0" by blast
  from e have pl: "planned h0 n = initial_items (node_of h n)" if "n \<in> set nodes" for n
    using that by (simp add: planned_def)
  have wc: "within_capacity h0 nodes"
    using assms(1) st pl by (simp add: within_capacity_def sizes_static [OF st] static_def)
  have nn: "sizes_nonneg h0 nodes"
    using assms(2) st pl by (simp add: sizes_nonneg_def static_def)
  from plan_loop_capacity [OF l wc nn] have "within_capacity h' nodes'" .
  moreover from plan_loop_conserves [OF l plan_init_conserves(1) [OF i]]
  have "set nodes' = set nodes" by simp
  ultimately show ?thesis by (simp add: within_capacity_def)
qed

text \<open>
  C3, as amended. The planner checks the capacity of the destination only, against the
  \<^verbatim>\<open>planned_used\<close> that \<^verbatim>\<open>resort\<close> computed at the start of the round. So the node an
  accepted round moves an item to holds at most its capacity after the move; and if every
  node holds at most its capacity when \<^verbatim>\<open>plan\<close> is called and no item has a negative size,
  every node holds at most its capacity when \<^verbatim>\<open>plan\<close> returns, for every \<^verbatim>\<open>max_iters\<close>
  and hence after every accepted move.
\<close>

theorem capacity_kept:
  "((\<forall>n \<in> set nodes. sizes h (initial_items (node_of h n)) \<le> capacity (node_of h n))
    \<and> (\<forall>n \<in> set nodes. \<forall>i \<in> set (initial_items (node_of h n)). 0 \<le> size_i (item_of h i))
    \<and> plan h nodes s = Inr (h', nodes', moves)
    \<longrightarrow> (\<forall>n \<in> set nodes. sizes h' (planned h' n) \<le> capacity (node_of h' n)))
   \<and> (plan_one g ns s (plan_step_of s) = Inr (g', ns', Some moved)
    \<longrightarrow> (\<forall>i \<in> set moved. \<forall>d. planned_owner (item_of g' i) = Some d \<longrightarrow>
           sizes g' (planned g' d) \<le> capacity (node_of g' d)))"
proof (rule conjI)
  show "(\<forall>n \<in> set nodes. sizes h (initial_items (node_of h n)) \<le> capacity (node_of h n))
    \<and> (\<forall>n \<in> set nodes. \<forall>i \<in> set (initial_items (node_of h n)). 0 \<le> size_i (item_of h i))
    \<and> plan h nodes s = Inr (h', nodes', moves)
    \<longrightarrow> (\<forall>n \<in> set nodes. sizes h' (planned h' n) \<le> capacity (node_of h' n))"
    using plan_capacity [of nodes h s h' nodes' moves] by blast
next
  show "plan_one g ns s (plan_step_of s) = Inr (g', ns', Some moved)
    \<longrightarrow> (\<forall>i \<in> set moved. \<forall>d. planned_owner (item_of g' i) = Some d \<longrightarrow>
           sizes g' (planned g' d) \<le> capacity (node_of g' d))"
  proof (rule impI)
    assume one: "plan_one g ns s (plan_step_of s) = Inr (g', ns', Some moved)"
    have mode: "plan_step_of s = plan_step_move"
    proof (cases "swap s")
      case True
      with one plan_one_swap_None [of g ns s g' ns' "Some moved"] show ?thesis
        by (simp add: plan_step_of_def)
    next
      case False
      then show ?thesis by (simp add: plan_step_of_def)
    qed
    from plan_one_move_accepted [OF one [unfolded mode]]
    obtain g1 i r io where rs: "resort g ns = Inr (g1, ns')"
      and mo: "moved = [i]" and r: "r \<in> set ns'" and ne: "io \<noteq> r"
      and co: "current_owner (item_of g1 i) = Some io"
      and cm: "can_move_to g1 i r = Inr True"
      and mv: "move g1 i r = Inr g'" by blast
    from move_effect [OF mv] have "planned_owner (item_of g' i) = Some r" by auto
    with accepted_destination [OF rs r cm co ne mv] mo
    show "\<forall>i \<in> set moved. \<forall>d. planned_owner (item_of g' i) = Some d \<longrightarrow>
           sizes g' (planned g' d) \<le> capacity (node_of g' d)"
      by simp
  qed
qed

lemma S1_initial_capacity:
  "\<forall>n \<in> set [0, 1]. sizes S1_heap (initial_items (node_of S1_heap n)) \<le> capacity (node_of S1_heap n)"
  "\<forall>n \<in> set [0, 1]. \<forall>i \<in> set (initial_items (node_of S1_heap n)). 0 \<le> size_i (item_of S1_heap i)"
  by (simp_all add: S1_heap_def heap_of_def Disk_def PartitionReplica_def sizes_def)

lemma S1_used_after:
  "used_after (plan S1_heap [0, 1] S1_settings) 0 = Some 50"
  "used_after (plan S1_heap [0, 1] S1_settings) 1 = Some 40"
  "capacity_after (plan S1_heap [0, 1] S1_settings) 0 = Some 100"
  "capacity_after (plan S1_heap [0, 1] S1_settings) 1 = Some 100"
  by code_simp+

theorem capacity_kept_witness:
  "\<exists>h' nodes' moves g' ns'.
     plan S1_heap [0, 1] S1_settings = Inr (h', nodes', moves)
     \<and> sizes S1_heap (initial_items (node_of S1_heap 0)) \<le> capacity (node_of S1_heap 0)
     \<and> sizes S1_heap (initial_items (node_of S1_heap 1)) \<le> capacity (node_of S1_heap 1)
     \<and> sizes h' (planned h' 0) = 50 \<and> capacity (node_of h' 0) = 100
     \<and> sizes h' (planned h' 1) = 40 \<and> capacity (node_of h' 1) = 100
     \<and> sizes h' (planned h' 0) \<le> capacity (node_of h' 0)
     \<and> sizes h' (planned h' 1) \<le> capacity (node_of h' 1)
     \<and> plan_one S1_ready [0, 1] S1_settings (plan_step_of S1_settings) = Inr (g', ns', Some [0])
     \<and> (\<exists>d. planned_owner (item_of g' 0) = Some d)"
proof -
  from S1_returns obtain h' nodes' moves where
    p: "plan S1_heap [0, 1] S1_settings = Inr (h', nodes', moves)"
    by (cases "plan S1_heap [0, 1] S1_settings") auto
  from S1_round_accepts obtain g' ns' where
    one: "plan_one S1_ready [0, 1] S1_settings (plan_step_of S1_settings) = Inr (g', ns', Some [0])"
    by (auto simp: accepted_def split: sum.splits)
  from plan_one_move_accepted [of S1_ready "[0, 1]" S1_settings g' ns' "[0]"] one
  have "\<exists>d. planned_owner (item_of g' 0) = Some d"
    by (auto simp: plan_step_of_def S1_settings_def PlanSettings_def dest: move_effect)
  with capacity_kept [where nodes = "[0, 1]" and h = S1_heap and s = S1_settings and h' = h'
      and nodes' = nodes' and moves = moves and g = S1_ready and ns = "[0, 1]" and g' = g'
      and ns' = ns' and moved = "[0]"]
    p one S1_initial_capacity S1_used_after
  show ?thesis
    by (auto simp: used_after_def capacity_after_def)
qed

lemma over_heap_result:
  "returned (plan over_heap [0, 1] S1_settings) = Inr [1]"
  "used_after (plan over_heap [0, 1] S1_settings) 0 = Some 150"
  "capacity_after (plan over_heap [0, 1] S1_settings) 0 = Some 100"
  by code_simp+

theorem capacity_counterexample:
  "returned (plan over_heap [0, 1] S1_settings) = Inr [1]
   \<and> used_after (plan over_heap [0, 1] S1_settings) 0 = Some 150
   \<and> capacity_after (plan over_heap [0, 1] S1_settings) 0 = Some 100
   \<and> \<not> (150 :: int) \<le> 100"
  using over_heap_result by simp

section \<open>Monotone variance\<close>









section \<open>At rest\<close>







end
